theory Spec2Isabelle
  imports Complex_Main
begin

section \<open>Values, responses and failures\<close>

text \<open>
  The program of \<^verbatim>\<open>src/index.ts\<close> handles untyped JavaScript values: the bodies that
  axios hands back after parsing a response. An object is a list of key/value bindings and
  a property read takes the first binding of the key (a parsed object binds a key once);
  reading a property that is absent, or reading from a value that is no object, gives
  \<open>undefined\<close>. Numbers are never inspected by the program.
\<close>

datatype jsval =
    JUndefined
  | JNull
  | JBool bool
  | JNum rat
  | JStr string
  | JArr "jsval list"
  | JObj "(string \<times> jsval) list"

fun get_prop :: "jsval \<Rightarrow> string \<Rightarrow> jsval" where
  "get_prop (JObj kvs) k = (case map_of kvs k of Some v \<Rightarrow> v | None \<Rightarrow> JUndefined)"
| "get_prop _ k = JUndefined"

text \<open>
  Of an axios response the program reads \<open>config.url\<close>, the URL that was requested, and
  \<open>data\<close>, the body.
\<close>

record response =
  config_url :: string
  data :: jsval

text \<open>
  What can end a run: a request that is rejected (no answer, a status outside 2xx, the
  timeout exceeded), the \<open>Error\<close> thrown by the program itself, a file-system call that
  fails.
\<close>

datatype error =
    NetworkError
  | NonSuccessStatus nat
  | TimeoutExceeded
  | Error string
  | FilesystemError

text \<open>
  A promise is given by the moment it settles and by how: rejected with an error (\<open>Inl\<close>)
  or fulfilled with a value (\<open>Inr\<close>). \<open>Promise.all\<close> is rejected with the reason of the
  member that is rejected first (the earliest in the list among those rejected at the same
  moment); when no member is rejected it is fulfilled with the values in the order of the
  list.
\<close>

type_synonym 'a promise = "nat \<times> (error + 'a)"

fun first_rejection :: "'a promise list \<Rightarrow> (nat \<times> error) option" where
  "first_rejection [] = None"
| "first_rejection ((t, Inr v) # ps) = first_rejection ps"
| "first_rejection ((t, Inl e) # ps) =
     (case first_rejection ps of
        None \<Rightarrow> Some (t, e)
      | Some (t', e') \<Rightarrow> if t' < t then Some (t', e') else Some (t, e))"

fun fulfilled :: "'a promise list \<Rightarrow> 'a list" where
  "fulfilled [] = []"
| "fulfilled ((t, Inr v) # ps) = v # fulfilled ps"
| "fulfilled ((t, Inl e) # ps) = fulfilled ps"

definition Promise_all :: "'a promise list \<Rightarrow> error + 'a list" where
  "Promise_all ps =
     (case first_rejection ps of
        Some (t, e) \<Rightarrow> Inl e
      | None \<Rightarrow> Inr (fulfilled ps))"

text \<open>
  The HTTP transport is outside the program: for a URL and a timeout in milliseconds it
  says when the request settles and with which error or body (within one run a request is
  answered by what it asks for: the same URL with the same timeout settles the same way).
  \<open>axios_get\<close> wraps the body into the response object, whose \<open>config.url\<close> is the URL
  asked for.
\<close>

type_synonym transport = "string \<Rightarrow> nat \<Rightarrow> jsval promise"

definition axios_get :: "transport \<Rightarrow> string \<Rightarrow> nat \<Rightarrow> response promise" where
  "axios_get net url timeout =
     (case net url timeout of
        (t, Inl e) \<Rightarrow> (t, Inl e)
      | (t, Inr body) \<Rightarrow> (t, Inr \<lparr>config_url = url, data = body\<rparr>))"

section \<open>Configuration\<close>

definition textsLang :: string where
  "textsLang = ''pol''"

definition textsAuthor :: string where
  "textsAuthor = ''adam-mickiewicz''"

definition reqConcurrency :: int where
  "reqConcurrency = 10"

definition apiBaseUrl :: string where
  "apiBaseUrl = ''https://wolnelektury.pl/api''"

section \<open>Shape contracts\<close>

text \<open>
  \<open>decode\<close> of an io-ts codec answers \<open>Left\<close> (with validation errors, which the program
  never reads) or \<open>Right\<close> with the typed value.
\<close>

datatype 'a decoded = Left | Right 'a

type_synonym 'a codec = "jsval \<Rightarrow> 'a decoded"

text \<open>
  Modelled from the spec: the combinators of the io-ts library (\<open>t.string\<close>, \<open>t.literal\<close>,
  \<open>t.array\<close>, \<open>t.refinement\<close>, \<open>t.type\<close>), whose code is not part of the repository. A
  contract names required fields with their exact expected types or values; validation is
  all-or-nothing, and any field mismatch rejects the whole value.
\<close>

definition t_string :: "string codec" where
  "t_string u = (case u of JStr s \<Rightarrow> Right s | _ \<Rightarrow> Left)"

definition t_literal :: "string \<Rightarrow> string codec" where
  "t_literal v u = (if u = JStr v then Right v else Left)"

fun all_right :: "'a decoded list \<Rightarrow> 'a list decoded" where
  "all_right [] = Right []"
| "all_right (Left # ds) = Left"
| "all_right (Right a # ds) = (case all_right ds of Left \<Rightarrow> Left | Right as \<Rightarrow> Right (a # as))"

definition t_array :: "'a codec \<Rightarrow> 'a list codec" where
  "t_array item u = (case u of JArr xs \<Rightarrow> all_right (map item xs) | _ \<Rightarrow> Left)"

definition t_refinement :: "'a codec \<Rightarrow> ('a \<Rightarrow> bool) \<Rightarrow> 'a codec" where
  "t_refinement c p u =
     (case c u of Left \<Rightarrow> Left | Right a \<Rightarrow> if p a then Right a else Left)"

text \<open>
  Modelled from the spec: \<open>t.type\<close> first asks for an object (not an array, not null) and
  then validates each named property; properties that the contract does not name are not
  looked at.
\<close>

fun is_record :: "jsval \<Rightarrow> bool" where
  "is_record (JObj kvs) = True"
| "is_record _ = False"

record text_obj =
  slug :: string

record text_detail =
  language :: string
  children :: "string list"
  "txt" :: string

text \<open>\<open>TextsDataCodec = t.array(t.type({ slug: t.string }))\<close>\<close>

definition TextsDataCodec :: "text_obj list codec" where
  "TextsDataCodec =
     t_array (\<lambda>u. if is_record u
                   then (case t_string (get_prop u ''slug'') of
                           Right s \<Rightarrow> Right \<lparr>slug = s\<rparr>
                         | Left \<Rightarrow> Left)
                   else Left)"

text \<open>
  \<open>TextDetailCodec\<close>: \<open>language\<close> is the configured literal, \<open>children\<close> is an array of
  strings of length 0, \<open>txt\<close> is a string.
\<close>

definition TextDetailCodec :: "text_detail codec" where
  "TextDetailCodec u =
     (if is_record u
      then (case t_literal textsLang (get_prop u ''language'') of
              Left \<Rightarrow> Left
            | Right l \<Rightarrow>
               (case t_refinement (t_array t_string) (\<lambda>children. length children = 0)
                       (get_prop u ''children'') of
                  Left \<Rightarrow> Left
                | Right c \<Rightarrow>
                   (case t_string (get_prop u ''txt'') of
                      Left \<Rightarrow> Left
                    | Right s \<Rightarrow> Right \<lparr>language = l, children = c, txt = s\<rparr>)))
      else Left)"

section \<open>The batched fetcher\<close>

text \<open>
  What a run does to the outside is recorded as a trace of events, in the order of the
  calls: a single awaited request (\<open>Get\<close>, with URL and timeout), a group of requests
  issued together and awaited by one \<open>Promise.all\<close> (\<open>GetAll\<close>), a call of the
  \<open>updateProgress\<close> callback with its amount, the calls on the progress bar, on the console
  and on the file system. The colours of the console messages and the elapsed time printed
  at the end are not recorded.
\<close>

datatype message = GettingSlugs | FilteringCollections | DownloadingTexts | Done

datatype event =
    ConsoleClear
  | ConsoleLog message
  | MkdirSync
  | Get string nat
  | GetAll "(string \<times> nat) list"
  | UpdateProgress nat
  | BarStart nat
  | WriteFile string jsval

text \<open>
  \<open>Array.prototype.slice(start, end)\<close> on integer arguments: a negative index counts
  from the end of the array, and both indices are clamped to the array.
\<close>

definition rel_index :: "nat \<Rightarrow> int \<Rightarrow> nat" where
  "rel_index len k = (if k < 0 then nat (max (int len + k) 0) else min (nat k) len)"

definition slice :: "'a list \<Rightarrow> int \<Rightarrow> int \<Rightarrow> 'a list" where
  "slice xs start stop =
     (let from = rel_index (length xs) start;
          to = rel_index (length xs) stop
      in take (to - from) (drop from xs))"

text \<open>
  The loop of \<open>makeConcurrentHttpsReqs\<close> (lines 114 to 126), with its variables \<open>i\<close> and
  \<open>reqResults\<close> and the trace as state. \<open>concurrency\<close> and \<open>i\<close> are integers (the source
  computes on doubles, which are exact far beyond the length of an array). Of the optional
  \<open>updateProgress\<close> the loop needs to know whether it was supplied; what the callback
  does with the amount is the caller's business and cannot reach back into the loop. A
  rejected batch leaves the function at once with the error; \<open>None\<close> stands for a loop that
  never ends.
\<close>

partial_function (option) batchLoop ::
  "transport \<Rightarrow> string list \<Rightarrow> int \<Rightarrow> bool \<Rightarrow> (string \<Rightarrow> string) option \<Rightarrow>
   int \<Rightarrow> response list \<Rightarrow> event list \<Rightarrow> ((error + response list) \<times> event list) option"
where
  "batchLoop net urls concurrency updateProgress formatUrl i reqResults tr =
     (if i < int (length urls) then
        (let urlBatch = slice urls i (i + concurrency);
             reqs = map (\<lambda>url. case formatUrl of Some f \<Rightarrow> f url | None \<Rightarrow> url) urlBatch;
             tr1 = tr @ [GetAll (map (\<lambda>u. (u, 10000)) reqs)]
         in case Promise_all (map (\<lambda>u. axios_get net u 10000) reqs) of
              Inl e \<Rightarrow> Some (Inl e, tr1)
            | Inr batchResults \<Rightarrow>
                batchLoop net urls concurrency updateProgress formatUrl (i + concurrency)
                  (reqResults @ batchResults)
                  (if updateProgress then tr1 @ [UpdateProgress (length urlBatch)] else tr1))
      else Some (Inr reqResults, tr))"

declare batchLoop.simps [code]

text \<open>
  The accumulator of \<open>makeConcurrentHttpsReqs\<close> is an \<open>any[]\<close>. With \<open>processData\<close>
  supplied it is \<open>reqResults.reduce(processData, [])\<close> (line 129), a left fold from the
  empty list over elements of the caller's type. With \<open>processData\<close> omitted, line 131
  pushes the \<open>data\<close> of every response onto \<open>final\<close>, which is the same fold with the
  step \<open>pushData\<close>, over bodies: \<open>makeConcurrentHttpsReqs_default\<close>.
\<close>

definition makeConcurrentHttpsReqs ::
  "transport \<Rightarrow> string list \<Rightarrow> int \<Rightarrow> ('a list \<Rightarrow> response \<Rightarrow> 'a list) \<Rightarrow>
   bool \<Rightarrow> (string \<Rightarrow> string) option \<Rightarrow> event list \<Rightarrow>
   ((error + 'a list) \<times> event list) option"
where
  "makeConcurrentHttpsReqs net urls concurrency processData updateProgress formatUrl tr =
     (case batchLoop net urls concurrency updateProgress formatUrl 0 [] tr of
        None \<Rightarrow> None
      | Some (Inl e, tr') \<Rightarrow> Some (Inl e, tr')
      | Some (Inr reqResults, tr') \<Rightarrow> Some (Inr (foldl processData [] reqResults), tr'))"

definition pushData :: "jsval list \<Rightarrow> response \<Rightarrow> jsval list" where
  "pushData final reqResult = final @ [data reqResult]"

definition makeConcurrentHttpsReqs_default ::
  "transport \<Rightarrow> string list \<Rightarrow> int \<Rightarrow> bool \<Rightarrow> (string \<Rightarrow> string) option \<Rightarrow>
   event list \<Rightarrow> ((error + jsval list) \<times> event list) option"
where
  "makeConcurrentHttpsReqs_default net urls concurrency updateProgress formatUrl tr =
     makeConcurrentHttpsReqs net urls concurrency pushData updateProgress formatUrl tr"

section \<open>The run\<close>

text \<open>
  The reduction function of the first call site (lines 171 to 181): the \<open>txt\<close> of a body
  that the detail contract accepts is pushed, any other body leaves the accumulator as it
  is.
\<close>

definition filterCollections :: "string list \<Rightarrow> response \<Rightarrow> string list" where
  "filterCollections acc currRes =
     (case TextDetailCodec (data currRes) of
        Right textDetail \<Rightarrow> acc @ [txt textDetail]
      | Left \<Rightarrow> acc)"

text \<open>
  The reduction function of the second call site (lines 197 to 206) starts one
  \<open>writeFile\<close> per response, to the file of the output directory named by what follows the
  last \<open>/\<close> of the URL, and pushes its promise. The accumulator holds the writes that were
  started, as file name and content; the run awaits them afterwards.
\<close>

definition last_segment :: "string \<Rightarrow> string" where
  "last_segment url = rev (takeWhile (\<lambda>c. c \<noteq> CHR ''/'') (rev url))"

definition writeText :: "(string \<times> jsval) list \<Rightarrow> response \<Rightarrow> (string \<times> jsval) list" where
  "writeText acc currRes = acc @ [(last_segment (config_url currRes), data currRes)]"

text \<open>
  The surroundings of a run: whether the directory \<open>output/raw\<close> exists when the run
  starts, whether creating it fails, the transport, and when and how the write of a file
  settles.
\<close>

record env =
  outputRawExists :: bool
  mkdirSync :: "error option"
  http :: transport
  writeFile :: "string \<Rightarrow> jsval \<Rightarrow> unit promise"

definition listUrl :: string where
  "listUrl = apiBaseUrl @ ''/authors/'' @ textsAuthor @ ''/books/''"

definition detailUrl :: "string \<Rightarrow> string" where
  "detailUrl s = apiBaseUrl @ ''/books/'' @ s @ ''/''"

text \<open>
  The two call sites of \<open>makeConcurrentHttpsReqs\<close> (lines 168 to 186 and 194 to 210). Both
  supply a callback, which hands the amount to \<open>progBar.increment\<close>.
\<close>

definition filterPhase ::
  "transport \<Rightarrow> string list \<Rightarrow> event list \<Rightarrow> ((error + string list) \<times> event list) option"
where
  "filterPhase net slugs tr =
     makeConcurrentHttpsReqs net slugs reqConcurrency filterCollections True
       (Some detailUrl) tr"

definition downloadPhase ::
  "transport \<Rightarrow> string list \<Rightarrow> event list \<Rightarrow>
   ((error + (string \<times> jsval) list) \<times> event list) option"
where
  "downloadPhase net txtUrls tr =
     makeConcurrentHttpsReqs net txtUrls reqConcurrency writeText True None tr"

text \<open>The body of the program (lines 137 to 216).\<close>

definition main :: "env \<Rightarrow> ((error + unit) \<times> event list) option" where
  "main env =
     (if \<not> outputRawExists env then
        (case mkdirSync env of
           Some e \<Rightarrow> Some (Inl e, [ConsoleClear, MkdirSync])
         | None \<Rightarrow>
            (let tr1 = [ConsoleClear, MkdirSync, ConsoleLog GettingSlugs, Get listUrl 5000]
             in case snd (axios_get (http env) listUrl 5000) of
                  Inl e \<Rightarrow> Some (Inl e, tr1)
                | Inr listRes \<Rightarrow>
                   (case TextsDataCodec (data listRes) of
                      Left \<Rightarrow> Some (Inl (Error ''invalid texts data req response format''), tr1)
                    | Right textObjs \<Rightarrow>
                       (let slugs = map slug textObjs;
                            tr2 = tr1 @ [ConsoleLog FilteringCollections, BarStart (length slugs)]
                        in case filterPhase (http env) slugs tr2 of
                             None \<Rightarrow> None
                           | Some (Inl e, tr3) \<Rightarrow> Some (Inl e, tr3)
                           | Some (Inr txtUrls, tr3) \<Rightarrow>
                              (let tr4 = tr3 @ [ConsoleLog DownloadingTexts,
                                                BarStart (length txtUrls)]
                               in case downloadPhase (http env) txtUrls tr4 of
                                    None \<Rightarrow> None
                                  | Some (Inl e, tr5) \<Rightarrow> Some (Inl e, tr5)
                                  | Some (Inr writes, tr5) \<Rightarrow>
                                     (let tr6 = tr5 @ map (\<lambda>(name, text). WriteFile name text)
                                                        writes
                                      in case Promise_all
                                                (map (\<lambda>(name, text). writeFile env name text)
                                                   writes) of
                                           Inl e \<Rightarrow> Some (Inl e, tr6)
                                         | Inr written \<Rightarrow>
                                            Some (Inr (), tr6 @ [ConsoleLog Done])))))))
      else Some (Inr (), [ConsoleClear, ConsoleLog Done]))"

section \<open>Notions for the statements\<close>

text \<open>The URL requested for a target: \<open>formatUrl ? formatUrl(url) : url\<close>.\<close>

definition target_url :: "(string \<Rightarrow> string) option \<Rightarrow> string \<Rightarrow> string" where
  "target_url formatUrl url = (case formatUrl of Some f \<Rightarrow> f url | None \<Rightarrow> url)"

text \<open>Read off a trace: the batches of requests, and the amounts given to the callback.\<close>

fun batches_of :: "event list \<Rightarrow> (string \<times> nat) list list" where
  "batches_of [] = []"
| "batches_of (GetAll reqs # es) = reqs # batches_of es"
| "batches_of (e # es) = batches_of es"

fun increments_of :: "event list \<Rightarrow> nat list" where
  "increments_of [] = []"
| "increments_of (UpdateProgress amount # es) = amount # increments_of es"
| "increments_of (e # es) = increments_of es"

text \<open>
  The partition as the specification words it: consecutive batches of size \<open>n\<close>, the last
  one possibly shorter. It is compared with what the loop does.
\<close>

function spec_batches :: "nat \<Rightarrow> 'a list \<Rightarrow> 'a list list" where
  "spec_batches n xs =
     (if n = 0 \<or> xs = [] then [] else take n xs # spec_batches n (drop n xs))"
  by pat_completeness auto
termination
  by (relation "measure (\<lambda>(n, xs). length xs)") auto

declare spec_batches.simps [simp del]

text \<open>
  The events of one completed batch, and the loop body run over a given list of batches;
  both serve the proofs about \<open>batchLoop\<close>.
\<close>

definition batch_events :: "bool \<Rightarrow> (string \<Rightarrow> string) option \<Rightarrow> string list \<Rightarrow> event list" where
  "batch_events updateProgress formatUrl urlBatch =
     GetAll (map (\<lambda>url. (target_url formatUrl url, 10000)) urlBatch) #
     (if updateProgress then [UpdateProgress (length urlBatch)] else [])"

fun runBatches ::
  "transport \<Rightarrow> bool \<Rightarrow> (string \<Rightarrow> string) option \<Rightarrow> string list list \<Rightarrow>
   response list \<Rightarrow> event list \<Rightarrow> (error + response list) \<times> event list"
where
  "runBatches net updateProgress formatUrl [] reqResults tr = (Inr reqResults, tr)"
| "runBatches net updateProgress formatUrl (urlBatch # rest) reqResults tr =
     (let reqs = map (target_url formatUrl) urlBatch;
          tr1 = tr @ [GetAll (map (\<lambda>u. (u, 10000)) reqs)]
      in case Promise_all (map (\<lambda>u. axios_get net u 10000) reqs) of
           Inl e \<Rightarrow> (Inl e, tr1)
         | Inr batchResults \<Rightarrow>
             runBatches net updateProgress formatUrl rest (reqResults @ batchResults)
               (if updateProgress then tr1 @ [UpdateProgress (length urlBatch)] else tr1))"

text \<open>
  The detail contract as the specification words it: the language is the configured
  literal, the child list is an empty array, the body field is a string.
\<close>

fun is_string :: "jsval \<Rightarrow> bool" where
  "is_string (JStr s) = True"
| "is_string _ = False"

definition spec_detail_contract :: "jsval \<Rightarrow> bool" where
  "spec_detail_contract d \<longleftrightarrow>
     get_prop d ''language'' = JStr textsLang \<and>
     get_prop d ''children'' = JArr [] \<and>
     is_string (get_prop d ''txt'')"

text \<open>
  The requests of a trace, each with its timeout, and the trace of a call that came back.
\<close>

fun requests_of :: "event list \<Rightarrow> (string \<times> nat) list" where
  "requests_of [] = []"
| "requests_of (Get url timeout # es) = (url, timeout) # requests_of es"
| "requests_of (GetAll reqs # es) = reqs @ requests_of es"
| "requests_of (e # es) = requests_of es"

definition trace_of :: "('a \<times> event list) option \<Rightarrow> event list" where
  "trace_of r = (case r of Some (res, tr) \<Rightarrow> tr | None \<Rightarrow> [])"

text \<open>
  The timeouts as the specification words them: every timeout of a detail look-up is
  shorter than every timeout of a download.
\<close>

definition spec_shorter_timeouts :: "event list \<Rightarrow> event list \<Rightarrow> bool" where
  "spec_shorter_timeouts lookups downloads \<longleftrightarrow>
     list_all (\<lambda>t. list_all (\<lambda>t'. t < t') (map snd (requests_of downloads)))
       (map snd (requests_of lookups))"

section \<open>Example surroundings\<close>

text \<open>
  A transport that answers every request with its own URL as body, and a small upstream:
  three works, of which \<open>b\<close> is a collection, with the texts of \<open>a\<close> and \<open>c\<close>; every other
  request runs into its timeout.
\<close>

definition echo_net :: transport where
  "echo_net url timeout = (0, Inr (JStr url))"

definition txtUrl :: "string \<Rightarrow> string" where
  "txtUrl name = ''https://wolnelektury.pl/media/book/txt/'' @ name @ ''.txt''"

definition example_detail :: "string \<Rightarrow> string list \<Rightarrow> jsval" where
  "example_detail name kids =
     JObj [(''title'', JStr name),
           (''language'', JStr ''pol''),
           (''children'', JArr (map JStr kids)),
           (''txt'', JStr (txtUrl name))]"

definition example_net :: transport where
  "example_net url timeout =
     (if url = listUrl then
        (3, Inr (JArr [JObj [(''slug'', JStr ''a''), (''title'', JStr ''A'')],
                       JObj [(''slug'', JStr ''b'')],
                       JObj [(''slug'', JStr ''c'')]]))
      else if url = detailUrl ''a'' then (2, Inr (example_detail ''a'' []))
      else if url = detailUrl ''b'' then (1, Inr (example_detail ''b'' [''b-1'']))
      else if url = detailUrl ''c'' then (4, Inr (example_detail ''c'' []))
      else if url = txtUrl ''a'' then (2, Inr (JStr ''Litwo''))
      else if url = txtUrl ''c'' then (1, Inr (JStr ''Ojczyzno''))
      else (timeout, Inl TimeoutExceeded))"

text \<open>
  A transport on which two targets fail, in different ways: \<open>z\<close> is answered with status
  404 at moment 1, \<open>y\<close> is refused at moment 0.
\<close>

definition flaky_net :: transport where
  "flaky_net url timeout =
     (if url = ''z'' then (1, Inl (NonSuccessStatus 404))
      else if url = ''y'' then (0, Inl NetworkError)
      else (0, Inr (JStr url)))"

definition example_env :: env where
  "example_env =
     \<lparr>outputRawExists = False, mkdirSync = None, http = example_net,
      writeFile = (\<lambda>name text. (0, Inr ()))\<rparr>"

section \<open>Promises and the loop\<close>

lemma first_rejection_member:
  "first_rejection ps = Some (t, e) \<Longrightarrow> (t, Inl e) \<in> set ps"
proof (induction ps arbitrary: t e rule: first_rejection.induct)
  case 1
  then show ?case by simp
next
  case (2 t' v ps)
  then show ?case by simp
next
  case (3 t' e' ps)
  then show ?case
    by (auto split: option.splits if_splits)
qed

lemma first_rejection_None:
  "first_rejection ps = None \<longleftrightarrow> (\<forall>p \<in> set ps. \<not> isl (snd p))"
  by (induction ps rule: first_rejection.induct) (auto split: option.splits)

lemma fulfilled_all:
  "first_rejection ps = None \<Longrightarrow> map snd ps = map Inr (fulfilled ps)"
  by (induction ps rule: first_rejection.induct) (auto split: option.splits if_splits)

lemma Promise_all_Inr:
  "Promise_all ps = Inr vs \<Longrightarrow> map snd ps = map Inr vs"
  by (auto simp: Promise_all_def fulfilled_all split: option.splits)

lemma Promise_all_Inl:
  "Promise_all ps = Inl e \<Longrightarrow> \<exists>t. (t, Inl e) \<in> set ps"
  by (auto simp: Promise_all_def split: option.splits dest: first_rejection_member)

lemma Promise_all_rejects:
  assumes "p \<in> set ps" "isl (snd p)"
  shows "\<exists>e. Promise_all ps = Inl e"
proof -
  have "first_rejection ps \<noteq> None"
    using assms by (auto simp: first_rejection_None)
  then show ?thesis
    by (auto simp: Promise_all_def split: option.splits)
qed

lemma snd_axios_get:
  "snd (axios_get net url timeout) =
     (case snd (net url timeout) of
        Inl e \<Rightarrow> Inl e
      | Inr body \<Rightarrow> Inr \<lparr>config_url = url, data = body\<rparr>)"
  by (cases "net url timeout") (auto simp: axios_get_def split: sum.splits)

lemma target_url_fun:
  "(\<lambda>url. case fmt of None \<Rightarrow> url | Some f \<Rightarrow> f url) = target_url fmt"
  by (rule ext) (simp add: target_url_def)

lemma slice_batch:
  assumes "0 \<le> i" "1 \<le> c"
  shows "slice xs i (i + c) = take (nat c) (drop (nat i) xs)"
proof -
  have "rel_index (length xs) i = min (nat i) (length xs)"
    using assms by (simp add: rel_index_def)
  moreover have "rel_index (length xs) (i + c) = min (nat i + nat c) (length xs)"
    using assms by (simp add: rel_index_def nat_add_distrib)
  ultimately have sl: "slice xs i (i + c) =
      take (min (nat i + nat c) (length xs) - min (nat i) (length xs))
        (drop (min (nat i) (length xs)) xs)"
    by (simp add: slice_def Let_def)
  show ?thesis
  proof (cases "nat i + nat c \<le> length xs")
    case True
    then show ?thesis using sl by (simp add: min_def)
  next
    case False
    then have "length (drop (nat i) xs) \<le> nat c" by simp
    then have "take (nat c) (drop (nat i) xs) = drop (nat i) xs" by (rule take_all)
    moreover have "take (length xs - nat i) (drop (nat i) xs) = drop (nat i) xs" by simp
    ultimately show ?thesis
      using sl False by (cases "nat i \<le> length xs") (simp_all add: min_def)
  qed
qed

lemma batchLoop_runs:
  assumes "1 \<le> c" "0 \<le> i"
  shows "batchLoop net urls c up fmt i acc tr =
         Some (runBatches net up fmt (spec_batches (nat c) (drop (nat i) urls)) acc tr)"
  using assms(2)
proof (induction "length urls - nat i" arbitrary: i acc tr rule: less_induct)
  case less
  show ?case
  proof (cases "i < int (length urls)")
    case False
    then have "drop (nat i) urls = []" using less.prems by simp
    then show ?thesis using False
      by (subst batchLoop.simps) (simp add: spec_batches.simps)
  next
    case True
    have nonempty: "drop (nat i) urls \<noteq> []" using True less.prems by simp
    have step: "length urls - nat (i + c) < length urls - nat i"
      using True less.prems assms(1) by linarith
    have pos: "0 \<le> i + c" using less.prems assms(1) by simp
    have dd: "drop (nat c) (drop (nat i) urls) = drop (nat (i + c)) urls"
      using less.prems assms(1) by (simp add: nat_add_distrib add.commute)
    have sb: "spec_batches (nat c) (drop (nat i) urls) =
              take (nat c) (drop (nat i) urls) # spec_batches (nat c) (drop (nat (i + c)) urls)"
      using nonempty assms(1) by (subst spec_batches.simps) (simp del: drop_drop add: dd)
    show ?thesis
      using True less.hyps[OF step pos]
      by (subst batchLoop.simps)
         (simp add: sb slice_batch[OF less.prems assms(1)] Let_def target_url_fun
               split: sum.split split del: if_split)
  qed
qed

lemma batches_of_append: "batches_of (xs @ ys) = batches_of xs @ batches_of ys"
  by (induction xs rule: batches_of.induct) simp_all


lemma batches_of_batch_events:
  "batches_of (concat (map (batch_events up fmt) bs)) =
     map (map (\<lambda>url. (target_url fmt url, 10000))) bs"
  by (induction bs) (auto simp add: batch_events_def)


lemma increments_of_no_callback:
  "increments_of (concat (map (batch_events False fmt) bs)) = []"
  by (induction bs) (simp_all add: batch_events_def)

text \<open>A run over batches that comes back with responses.\<close>

lemma runBatches_Inr:
  assumes "runBatches net up fmt bs acc tr = (Inr rs, tr')"
  shows "\<exists>new. rs = acc @ new \<and>
           map Inr new =
             map (\<lambda>url. case snd (net (target_url fmt url) 10000) of
                          Inl e \<Rightarrow> Inl e
                        | Inr body \<Rightarrow> Inr \<lparr>config_url = target_url fmt url, data = body\<rparr>)
               (concat bs) \<and>
           tr' = tr @ concat (map (batch_events up fmt) bs)"
  using assms
proof (induction bs arbitrary: acc tr)
  case Nil
  then show ?case by simp
next
  case (Cons b bs)
  let ?ps = "map (\<lambda>u. axios_get net u 10000) (map (target_url fmt) b)"
  from Cons.prems obtain vs where vs: "Promise_all ?ps = Inr vs"
    by (cases "Promise_all ?ps") (simp_all add: Let_def)
  let ?tr1 = "tr @ batch_events up fmt b"
  have run: "runBatches net up fmt bs (acc @ vs) ?tr1 = (Inr rs, tr')"
    using Cons.prems vs by (cases up) (simp_all add: Let_def batch_events_def comp_def)
  from Cons.IH[OF run] obtain new where new:
    "rs = (acc @ vs) @ new"
    "map Inr new = map (\<lambda>url. case snd (net (target_url fmt url) 10000) of
                          Inl e \<Rightarrow> Inl e
                        | Inr body \<Rightarrow> Inr \<lparr>config_url = target_url fmt url, data = body\<rparr>)
               (concat bs)"
    "tr' = ?tr1 @ concat (map (batch_events up fmt) bs)"
    by blast
  have "map snd ?ps = map Inr vs" using vs by (rule Promise_all_Inr)
  then have "map Inr vs = map (\<lambda>url. case snd (net (target_url fmt url) 10000) of
                          Inl e \<Rightarrow> Inl e
                        | Inr body \<Rightarrow> Inr \<lparr>config_url = target_url fmt url, data = body\<rparr>) b"
    by (simp add: comp_def snd_axios_get)
  with new show ?case
    by (intro exI[of _ "vs @ new"]) simp
qed

lemma runBatches_Inl:
  assumes "runBatches net up fmt bs acc tr = (Inl e, tr')"
  shows "\<exists>k < length bs.
           tr' = tr @ concat (map (batch_events up fmt) (take k bs)) @
                   [GetAll (map (\<lambda>url. (target_url fmt url, 10000)) (bs ! k))] \<and>
           (\<exists>url \<in> set (bs ! k). snd (net (target_url fmt url) 10000) = Inl e)"
  using assms
proof (induction bs arbitrary: acc tr)
  case Nil
  then show ?case by simp
next
  case (Cons b bs)
  let ?ps = "map (\<lambda>u. axios_get net u 10000) (map (target_url fmt) b)"
  show ?case
  proof (cases "Promise_all ?ps")
    case (Inl e')
    with Cons.prems have e: "e' = e"
      and tr': "tr' = tr @ [GetAll (map (\<lambda>url. (target_url fmt url, 10000)) b)]"
      by (simp_all add: Let_def comp_def)
    from Inl e obtain t where "(t, Inl e) \<in> set ?ps"
      using Promise_all_Inl by blast
    then obtain url where url: "url \<in> set b" "axios_get net (target_url fmt url) 10000 = (t, Inl e)"
      by auto
    then have "snd (net (target_url fmt url) 10000) = Inl e"
      using snd_axios_get[of net "target_url fmt url" 10000]
      by (simp split: sum.splits)
    with url(1) tr' show ?thesis
      by (intro exI[of _ 0]) auto
  next
    case (Inr vs)
    let ?tr1 = "tr @ batch_events up fmt b"
    have run: "runBatches net up fmt bs (acc @ vs) ?tr1 = (Inl e, tr')"
      using Cons.prems Inr by (cases up) (simp_all add: Let_def batch_events_def comp_def)
    from Cons.IH[OF run] obtain k where k: "k < length bs"
      "tr' = ?tr1 @ concat (map (batch_events up fmt) (take k bs)) @
                   [GetAll (map (\<lambda>url. (target_url fmt url, 10000)) (bs ! k))]"
      "\<exists>url \<in> set (bs ! k). snd (net (target_url fmt url) 10000) = Inl e"
      by blast
    then show ?thesis
      by (intro exI[of _ "Suc k"]) simp
  qed
qed

lemma runBatches_rejects:
  assumes "url \<in> set (concat bs)" "isl (snd (net (target_url fmt url) 10000))"
  shows "\<exists>e tr'. runBatches net up fmt bs acc tr = (Inl e, tr')"
proof (cases "runBatches net up fmt bs acc tr")
  case (Pair res tr')
  show ?thesis
  proof (cases res)
    case (Inl e)
    with Pair show ?thesis by blast
  next
    case (Inr rs)
    from runBatches_Inr[OF Pair[unfolded Inr]] obtain new where
      "map Inr new =
             map (\<lambda>url. case snd (net (target_url fmt url) 10000) of
                          Inl e \<Rightarrow> Inl e
                        | Inr body \<Rightarrow> Inr \<lparr>config_url = target_url fmt url, data = body\<rparr>)
               (concat bs)"
      by blast
    then have "\<forall>x \<in> set (map (\<lambda>url. case snd (net (target_url fmt url) 10000) of
                          Inl e \<Rightarrow> Inl e
                        | Inr body \<Rightarrow> Inr \<lparr>config_url = target_url fmt url, data = body\<rparr>)
               (concat bs)). \<not> isl x"
      by (metis (no_types, lifting) ex_map_conv sum.disc(2))
    with assms have False
      by (auto simp: isl_def split: sum.splits)
    then show ?thesis ..
  qed
qed

text \<open>The partition of the specification.\<close>

lemma spec_batches_Nil [simp]: "spec_batches n [] = []"
  by (simp add: spec_batches.simps)

lemma concat_spec_batches: "0 < n \<Longrightarrow> concat (spec_batches n xs) = xs"
proof (induction n xs rule: spec_batches.induct)
  case (1 n xs)
  then show ?case
    by (cases "xs = []") (simp_all add: spec_batches.simps[of n xs])
qed



lemma slice_stuck:
  assumes "c \<le> 0" "i \<le> 0" "i = 0 \<longrightarrow> c = 0"
  shows "slice xs i (i + c) = []"
proof (cases "i = 0")
  case True
  with assms show ?thesis by (simp add: slice_def rel_index_def)
next
  case False
  with assms have "i < 0" "i + c < 0" by simp_all
  then have "rel_index (length xs) (i + c) \<le> rel_index (length xs) i"
    using assms(1) by (simp add: rel_index_def)
  then show ?thesis by (simp add: slice_def Let_def)
qed

lemma batchLoop_stuck:
  assumes "c \<le> 0" "i \<le> 0" "i = 0 \<longrightarrow> c = 0" "urls \<noteq> []"
  shows "batchLoop net urls c up fmt i acc tr = None"
proof (rule ccontr)
  assume "batchLoop net urls c up fmt i acc tr \<noteq> None"
  then obtain y where y: "batchLoop net urls c up fmt i acc tr = Some y" by blast
  have "\<not> (c \<le> 0 \<and> i \<le> 0 \<and> (i = 0 \<longrightarrow> c = 0) \<and> urls \<noteq> [])"
  proof (rule batchLoop.raw_induct
      [where P = "\<lambda>net urls c up fmt i acc tr y.
                    \<not> (c \<le> 0 \<and> i \<le> 0 \<and> (i = 0 \<longrightarrow> c = 0) \<and> urls \<noteq> [])", OF _ y])
    fix loop :: "transport \<Rightarrow> string list \<Rightarrow> int \<Rightarrow> bool \<Rightarrow> (string \<Rightarrow> string) option \<Rightarrow>
                 int \<Rightarrow> response list \<Rightarrow> event list \<Rightarrow>
                 ((error + response list) \<times> event list) option"
    fix net urls c up fmt i acc tr y
    assume IH: "\<And>net urls c up fmt i acc tr y. loop net urls c up fmt i acc tr = Some y \<Longrightarrow>
                  \<not> (c \<le> 0 \<and> i \<le> 0 \<and> (i = 0 \<longrightarrow> c = 0) \<and> urls \<noteq> [])"
    assume body: "(if i < int (length urls)
      then let urlBatch = slice urls i (i + c);
               reqs = map (\<lambda>url. case fmt of None \<Rightarrow> url | Some f \<Rightarrow> f url) urlBatch;
               tr1 = tr @ [GetAll (map (\<lambda>u. (u, 10000)) reqs)]
           in case Promise_all (map (\<lambda>u. axios_get net u 10000) reqs) of
                Inl e \<Rightarrow> Some (Inl e, tr1)
              | Inr batchResults \<Rightarrow>
                  loop net urls c up fmt (i + c) (acc @ batchResults)
                   (if up then tr1 @ [UpdateProgress (length urlBatch)] else tr1)
      else Some (Inr acc, tr)) = Some y"
    show "\<not> (c \<le> 0 \<and> i \<le> 0 \<and> (i = 0 \<longrightarrow> c = 0) \<and> urls \<noteq> [])"
    proof
      assume inv: "c \<le> 0 \<and> i \<le> 0 \<and> (i = 0 \<longrightarrow> c = 0) \<and> urls \<noteq> []"
      then have lt: "i < int (length urls)" by (cases urls) auto
      have empty: "slice urls i (i + c) = []"
        using inv by (intro slice_stuck) simp_all
      have next_inv: "c \<le> 0 \<and> i + c \<le> 0 \<and> (i + c = 0 \<longrightarrow> c = 0) \<and> urls \<noteq> []"
        using inv by auto
      from body obtain acc' tr'' where "loop net urls c up fmt (i + c) acc' tr'' = Some y"
        using lt empty by (simp add: Promise_all_def Let_def split: if_splits)
      from IH[OF this] next_inv show False by blast
    qed
  qed
  with assms show False by blast
qed

lemma batchLoop_nonpositive:
  assumes "c \<le> 0" "urls \<noteq> []"
  shows "batchLoop net urls c up fmt 0 acc tr =
           (case Promise_all (map (\<lambda>u. axios_get net u 10000)
                                (map (target_url fmt) (slice urls 0 c))) of
              Inl e \<Rightarrow> Some (Inl e, tr @ [GetAll (map (\<lambda>url. (target_url fmt url, 10000))
                                                  (slice urls 0 c))])
            | Inr rs \<Rightarrow> None)"
proof (cases "c = 0")
  case True
  then show ?thesis
    using batchLoop_stuck[of c 0 urls net up fmt acc tr] assms
    by (simp add: slice_def rel_index_def Promise_all_def)
next
  case False
  with assms have c: "c < 0" by simp
  have lt: "0 < int (length urls)" using assms(2) by simp
  have stuck: "\<And>acc' tr'. batchLoop net urls c up fmt c acc' tr' = None"
    using c assms(2) by (intro batchLoop_stuck) simp_all
  show ?thesis
    using lt
    by (subst batchLoop.simps)
       (simp add: Let_def target_url_fun stuck comp_def split: sum.split split del: if_split)
qed

lemma all_right_length:
  "all_right ds = Right ys \<Longrightarrow> length ys = length ds"
  by (induction ds arbitrary: ys rule: all_right.induct) (auto split: decoded.splits)

lemma get_prop_record:
  "get_prop d k \<noteq> JUndefined \<Longrightarrow> is_record d"
  by (cases d) simp_all

lemma children_empty:
  "t_refinement (t_array t_string) (\<lambda>children. length children = 0) u = Right c \<longleftrightarrow>
     u = JArr [] \<and> c = []"
proof
  assume r: "t_refinement (t_array t_string) (\<lambda>children. length children = 0) u = Right c"
  then obtain xs where u: "u = JArr xs"
    by (cases u) (simp_all add: t_refinement_def t_array_def)
  from r u have "all_right (map t_string xs) = Right c" "length c = 0"
    by (auto simp: t_refinement_def t_array_def split: decoded.splits if_splits)
  then show "u = JArr [] \<and> c = []"
    using u all_right_length[of "map t_string xs" c] by simp
next
  assume "u = JArr [] \<and> c = []"
  then show "t_refinement (t_array t_string) (\<lambda>children. length children = 0) u = Right c"
    by (simp add: t_refinement_def t_array_def)
qed

lemma t_string_Right: "t_string u = Right s \<longleftrightarrow> u = JStr s"
  by (cases u) (simp_all add: t_string_def)

lemma t_literal_Right: "t_literal v u = Right l \<longleftrightarrow> u = JStr v \<and> l = v"
  by (auto simp: t_literal_def)

lemma is_string_iff: "is_string u \<longleftrightarrow> (\<exists>s. u = JStr s)"
  by (cases u) simp_all

lemma TextDetailCodec_Right:
  "TextDetailCodec d = Right v \<longleftrightarrow>
     get_prop d ''language'' = JStr textsLang \<and> get_prop d ''children'' = JArr [] \<and>
     get_prop d ''txt'' = JStr (txt v) \<and> language v = textsLang \<and> children v = []"
proof
  assume r: "TextDetailCodec d = Right v"
  then have rec: "is_record d"
    by (simp add: TextDetailCodec_def split: if_splits)
  from r rec obtain l c s where
    l: "t_literal textsLang (get_prop d ''language'') = Right l" and
    c: "t_refinement (t_array t_string) (\<lambda>children. length children = 0)
          (get_prop d ''children'') = Right c" and
    s: "t_string (get_prop d ''txt'') = Right s" and
    v: "v = \<lparr>language = l, children = c, txt = s\<rparr>"
    by (auto simp: TextDetailCodec_def split: decoded.splits)
  from c have "get_prop d ''children'' = JArr [] \<and> c = []"
    by (rule iffD1[OF children_empty])
  with l s v show "get_prop d ''language'' = JStr textsLang \<and>
     get_prop d ''children'' = JArr [] \<and>
     get_prop d ''txt'' = JStr (txt v) \<and> language v = textsLang \<and> children v = []"
    by (simp add: t_string_Right t_literal_Right)
next
  assume a: "get_prop d ''language'' = JStr textsLang \<and> get_prop d ''children'' = JArr [] \<and>
     get_prop d ''txt'' = JStr (txt v) \<and> language v = textsLang \<and> children v = []"
  then have rec: "is_record d"
    by (intro get_prop_record[of d "''language''"]) simp
  have l: "t_literal textsLang (get_prop d ''language'') = Right textsLang"
    using a by (simp add: t_literal_Right)
  have c: "t_refinement (t_array t_string) (\<lambda>children. length children = 0)
          (get_prop d ''children'') = Right []"
    using a by (intro iffD2[OF children_empty]) simp
  have s: "t_string (get_prop d ''txt'') = Right (txt v)"
    using a by (simp add: t_string_Right)
  have "v = \<lparr>language = textsLang, children = [], txt = txt v\<rparr>"
    using a by (cases v) simp
  then show "TextDetailCodec d = Right v"
    using rec l c s by (simp add: TextDetailCodec_def)
qed

lemma TextDetailCodec_accepts:
  "TextDetailCodec d \<noteq> Left \<longleftrightarrow> spec_detail_contract d"
proof
  assume "TextDetailCodec d \<noteq> Left"
  then obtain v where "TextDetailCodec d = Right v" by (cases "TextDetailCodec d") auto
  then show "spec_detail_contract d"
    by (simp add: TextDetailCodec_Right spec_detail_contract_def)
next
  assume "spec_detail_contract d"
  then obtain s where "get_prop d ''language'' = JStr textsLang" "get_prop d ''children'' = JArr []"
     "get_prop d ''txt'' = JStr s"
    by (auto simp: spec_detail_contract_def is_string_iff)
  then have "TextDetailCodec d = Right \<lparr>language = textsLang, children = [], txt = s\<rparr>"
    by (simp add: TextDetailCodec_Right)
  then show "TextDetailCodec d \<noteq> Left" by simp
qed

lemma foldl_filterCollections:
  "map JStr (foldl filterCollections acc rs) =
     map JStr acc @ map (\<lambda>r. get_prop (data r) ''txt'') (filter (\<lambda>r. spec_detail_contract (data r)) rs)"
proof (induction rs arbitrary: acc)
  case Nil
  then show ?case by simp
next
  case (Cons r rs)
  show ?case
  proof (cases "TextDetailCodec (data r)")
    case Left
    then have "\<not> spec_detail_contract (data r)"
      using TextDetailCodec_accepts[of "data r"] by simp
    then show ?thesis using Left Cons.IH[of acc] by (simp add: filterCollections_def)
  next
    case (Right v)
    then have "spec_detail_contract (data r)"
      using TextDetailCodec_accepts[of "data r"] by simp
    moreover have "get_prop (data r) ''txt'' = JStr (txt v)"
      using Right by (simp add: TextDetailCodec_Right)
    ultimately show ?thesis using Right Cons.IH[of "acc @ [txt v]"]
      by (simp add: filterCollections_def)
  qed
qed

section \<open>The function as a whole\<close>

lemma makeConcurrentHttpsReqs_runs:
  assumes "1 \<le> c"
  shows "makeConcurrentHttpsReqs net urls c pd up fmt tr =
           (case runBatches net up fmt (spec_batches (nat c) urls) [] tr of
              (Inl e, tr') \<Rightarrow> Some (Inl e, tr')
            | (Inr rs, tr') \<Rightarrow> Some (Inr (foldl pd [] rs), tr'))"
  using batchLoop_runs[OF assms, of 0 net urls up fmt "[]" tr]
  by (simp add: makeConcurrentHttpsReqs_def split: prod.splits sum.splits)

lemma makeConcurrentHttpsReqs_empty:
  "makeConcurrentHttpsReqs net [] c pd up fmt tr = Some (Inr [], tr)"
  by (simp add: makeConcurrentHttpsReqs_def batchLoop.simps)

lemma makeConcurrentHttpsReqs_nonpositive:
  assumes "c \<le> 0" "urls \<noteq> []"
  shows "makeConcurrentHttpsReqs net urls c pd up fmt tr \<noteq> Some (Inr acc, tr')"
  using batchLoop_nonpositive[OF assms, of net up fmt "[]" tr]
  by (simp add: makeConcurrentHttpsReqs_def split: sum.splits)

lemma responses_bodies:
  "map Inr new = map (\<lambda>url. case snd (net (f url) t) of
                          Inl e \<Rightarrow> Inl e
                        | Inr body \<Rightarrow> Inr \<lparr>config_url = f url, data = body\<rparr>) us \<Longrightarrow>
   map (\<lambda>r. Inr (data r)) new = map (\<lambda>url. snd (net (f url) t)) us \<and>
   map config_url new = map f us"
proof (induction us arbitrary: new)
  case Nil
  then show ?case by simp
next
  case (Cons u us)
  then obtain r rest where new: "new = r # rest" by (cases new) auto
  with Cons.prems have
    r: "Inr r = (case snd (net (f u) t) of
                   Inl e \<Rightarrow> Inl e
                 | Inr body \<Rightarrow> Inr \<lparr>config_url = f u, data = body\<rparr>)" and
    rest: "map Inr rest = map (\<lambda>url. case snd (net (f url) t) of
                          Inl e \<Rightarrow> Inl e
                        | Inr body \<Rightarrow> Inr \<lparr>config_url = f url, data = body\<rparr>) us"
    by simp_all
  from r have "Inr (data r) = snd (net (f u) t) \<and> config_url r = f u"
    by (cases "snd (net (f u) t)") auto
  with Cons.IH[OF rest] new show ?case by simp
qed

lemma makeConcurrentHttpsReqs_Inr:
  assumes "1 \<le> c"
    and "makeConcurrentHttpsReqs net urls c pd up fmt tr = Some (Inr acc, tr')"
  shows "\<exists>rs. acc = foldl pd [] rs \<and>
           map (\<lambda>r. Inr (data r)) rs = map (\<lambda>url. snd (net (target_url fmt url) 10000)) urls \<and>
           map config_url rs = map (target_url fmt) urls \<and>
           tr' = tr @ concat (map (batch_events up fmt) (spec_batches (nat c) urls))"
proof -
  from assms obtain rs where
    run: "runBatches net up fmt (spec_batches (nat c) urls) [] tr = (Inr rs, tr')" and
    acc: "acc = foldl pd [] rs"
    by (auto simp: makeConcurrentHttpsReqs_runs split: prod.splits sum.splits)
  have cc: "concat (spec_batches (nat c) urls) = urls"
    using assms(1) by (simp add: concat_spec_batches)
  from runBatches_Inr[OF run] cc have
    "map Inr rs = map (\<lambda>url. case snd (net (target_url fmt url) 10000) of
                          Inl e \<Rightarrow> Inl e
                        | Inr body \<Rightarrow> Inr \<lparr>config_url = target_url fmt url, data = body\<rparr>) urls"
    and tr': "tr' = tr @ concat (map (batch_events up fmt) (spec_batches (nat c) urls))"
    by auto
  from responses_bodies[where f = "target_url fmt" and net = net and t = 10000, OF this(1)]
    acc tr' show ?thesis by blast
qed

lemma foldl_pushData: "foldl pushData acc rs = acc @ map data rs"
  by (induction rs arbitrary: acc) (simp_all add: pushData_def)





lemma makeConcurrentHttpsReqs_returns:
  assumes "makeConcurrentHttpsReqs net urls c pd up fmt tr = Some (Inr acc, tr')"
  shows "\<exists>rs. acc = foldl pd [] rs \<and>
           map (\<lambda>r. Inr (data r)) rs = map (\<lambda>url. snd (net (target_url fmt url) 10000)) urls \<and>
           map config_url rs = map (target_url fmt) urls"
proof (cases "urls = []")
  case True
  with assms have "acc = []" by (simp add: makeConcurrentHttpsReqs_empty)
  with True show ?thesis by (intro exI[of _ "[]"]) simp
next
  case False
  have "1 \<le> c"
  proof (rule ccontr)
    assume "\<not> 1 \<le> c"
    then have "c \<le> 0" by simp
    from makeConcurrentHttpsReqs_nonpositive[OF this False] assms show False by blast
  qed
  from makeConcurrentHttpsReqs_Inr[OF this assms] show ?thesis by blast
qed

lemma length_foldl_filterCollections:
  "length (foldl filterCollections acc rs) \<le> length acc + length rs"
proof -
  have "length (foldl filterCollections acc rs) = length (map JStr (foldl filterCollections acc rs))"
    by simp
  also have "\<dots> \<le> length acc + length rs"
    unfolding foldl_filterCollections by simp
  finally show ?thesis .
qed

lemma TextDetailCodec_rejects:
  assumes "\<not> spec_detail_contract d"
  shows "TextDetailCodec d = Left"
  using assms TextDetailCodec_accepts[of d] by blast

lemma concat_take_spec_batches:
  "0 < n \<Longrightarrow> concat (take j (spec_batches n xs)) = take (j * n) xs"
proof (induction j arbitrary: xs)
  case 0
  then show ?case by simp
next
  case (Suc j)
  show ?case
  proof (cases "xs = []")
    case True
    then show ?thesis by simp
  next
    case False
    then have "spec_batches n xs = take n xs # spec_batches n (drop n xs)"
      using Suc.prems by (subst spec_batches.simps) simp
    then show ?thesis
      using Suc.IH[OF Suc.prems, of "drop n xs"] by (simp add: take_add)
  qed
qed

lemma makeConcurrentHttpsReqs_Inl:
  assumes "1 \<le> c"
    and "makeConcurrentHttpsReqs net urls c pd up fmt tr = Some (Inl e, tr')"
  shows "\<exists>k < length (spec_batches (nat c) urls).
           tr' = tr @ concat (map (batch_events up fmt) (take k (spec_batches (nat c) urls))) @
                   [GetAll (map (\<lambda>url. (target_url fmt url, 10000))
                              (spec_batches (nat c) urls ! k))] \<and>
           (\<exists>url \<in> set (spec_batches (nat c) urls ! k).
              snd (net (target_url fmt url) 10000) = Inl e)"
proof -
  from assms have "runBatches net up fmt (spec_batches (nat c) urls) [] tr = (Inl e, tr')"
    by (auto simp: makeConcurrentHttpsReqs_runs split: prod.splits sum.splits)
  then show ?thesis by (rule runBatches_Inl)
qed

lemma makeConcurrentHttpsReqs_rejects:
  assumes "1 \<le> c" and "url \<in> set urls"
    and "isl (snd (net (target_url fmt url) 10000))"
  shows "\<exists>e tr'. makeConcurrentHttpsReqs net urls c pd up fmt tr = Some (Inl e, tr')"
proof -
  have "url \<in> set (concat (spec_batches (nat c) urls))"
    using assms(1,2) by (simp add: concat_spec_batches)
  from runBatches_rejects[where net = net and fmt = fmt and up = up and acc = "[]" and tr = tr,
      OF this assms(3)] show ?thesis
    by (auto simp: makeConcurrentHttpsReqs_runs[OF assms(1)])
qed

text \<open>The definitions that a run on given surroundings unfolds.\<close>

lemmas eval_defs =
  makeConcurrentHttpsReqs_default_def makeConcurrentHttpsReqs_def batchLoop.simps slice_def
  rel_index_def Promise_all_def axios_get_def pushData_def filterCollections_def
  writeText_def last_segment_def
  TextDetailCodec_def TextsDataCodec_def t_string_def t_literal_def t_array_def
  t_refinement_def textsLang_def
  example_net_def example_detail_def echo_net_def flaky_net_def
  detailUrl_def listUrl_def apiBaseUrl_def textsAuthor_def txtUrl_def reqConcurrency_def

lemma foldl_filterCollections_Left:
  assumes "TextDetailCodec (data r) = Left"
  shows "foldl filterCollections acc (before @ r # after) =
         foldl filterCollections acc (before @ after)"
  using assms by (simp add: filterCollections_def)


lemma makeConcurrentHttpsReqs_total:
  assumes "1 \<le> c"
  shows "\<exists>r. makeConcurrentHttpsReqs net urls c pd up fmt tr = Some r"
  by (simp add: makeConcurrentHttpsReqs_runs[OF assms] split: prod.splits sum.splits)

lemma Promise_all_fulfils:
  "(\<exists>vs. Promise_all ps = Inr vs) \<longleftrightarrow> (\<forall>p \<in> set ps. \<not> isl (snd p))"
proof (cases "first_rejection ps")
  case None
  then show ?thesis
    using first_rejection_None[of ps] by (simp add: Promise_all_def)
next
  case (Some te)
  then have "\<not> (\<forall>p \<in> set ps. \<not> isl (snd p))"
    using first_rejection_None[of ps] by simp
  with Some show ?thesis
    by (simp add: Promise_all_def split: prod.splits)
qed

lemma isl_snd_axios_get:
  "isl (snd (axios_get net url timeout)) \<longleftrightarrow> isl (snd (net url timeout))"
  by (simp add: snd_axios_get split: sum.splits)

lemma makeConcurrentHttpsReqs_diverges:
  assumes "c \<le> 0" "urls \<noteq> []"
  shows "makeConcurrentHttpsReqs net urls c pd up fmt tr = None \<longleftrightarrow>
           (\<forall>url \<in> set (slice urls 0 c). \<not> isl (snd (net (target_url fmt url) 10000)))"
proof -
  let ?ps = "map (\<lambda>u. axios_get net u 10000) (map (target_url fmt) (slice urls 0 c))"
  have "makeConcurrentHttpsReqs net urls c pd up fmt tr = None \<longleftrightarrow> (\<exists>vs. Promise_all ?ps = Inr vs)"
    using batchLoop_nonpositive[OF assms, of net up fmt "[]" tr]
    by (cases "Promise_all ?ps") (simp_all add: makeConcurrentHttpsReqs_def)
  also have "\<dots> \<longleftrightarrow> (\<forall>url \<in> set (slice urls 0 c). \<not> isl (snd (net (target_url fmt url) 10000)))"
    by (simp add: Promise_all_fulfils isl_snd_axios_get)
  finally show ?thesis .
qed


section \<open>Requests and their timeouts\<close>

lemma requests_of_append: "requests_of (xs @ ys) = requests_of xs @ requests_of ys"
  by (induction xs rule: requests_of.induct) simp_all

lemma timeouts_of_requests:
  "map snd (map (\<lambda>url. (target_url fmt url, 10000::nat)) b) = replicate (length b) 10000"
  by (induction b) simp_all

lemma requests_of_batch_events:
  "map snd (requests_of (concat (map (batch_events up fmt) bs))) =
     replicate (length (concat bs)) 10000"
proof (induction bs)
  case Nil
  then show ?case by simp
next
  case (Cons b bs)
  have "map snd (requests_of (batch_events up fmt b)) = replicate (length b) 10000"
    using timeouts_of_requests[of fmt b] by (cases up) (simp_all add: batch_events_def)
  with Cons show ?case
    by (simp add: requests_of_append replicate_add)
qed

lemma requests_of_writes:
  "requests_of (map (\<lambda>(name, text). WriteFile name text) writes) = []"
  by (induction writes) auto

lemma makeConcurrentHttpsReqs_timeouts:
  assumes "1 \<le> c"
    and "makeConcurrentHttpsReqs net urls c pd up fmt tr = Some (res, tr')"
  shows "\<exists>new k. tr' = tr @ new \<and> map snd (requests_of new) = replicate k 10000"
proof (cases res)
  case (Inr acc)
  from makeConcurrentHttpsReqs_Inr[OF assms(1) assms(2)[unfolded Inr]]
  have "tr' = tr @ concat (map (batch_events up fmt) (spec_batches (nat c) urls))" by blast
  then show ?thesis
    using requests_of_batch_events by blast
next
  case (Inl e)
  from makeConcurrentHttpsReqs_Inl[OF assms(1) assms(2)[unfolded Inl]] obtain k where
    tr': "tr' = tr @ concat (map (batch_events up fmt) (take k (spec_batches (nat c) urls))) @
                   [GetAll (map (\<lambda>url. (target_url fmt url, 10000))
                              (spec_batches (nat c) urls ! k))]"
    by blast
  have "map snd (map (\<lambda>url. (target_url fmt url, 10000::nat)) (spec_batches (nat c) urls ! k)) =
          replicate (length (spec_batches (nat c) urls ! k)) 10000"
    by (rule timeouts_of_requests)
  then have "map snd (requests_of
        (concat (map (batch_events up fmt) (take k (spec_batches (nat c) urls))) @
                   [GetAll (map (\<lambda>url. (target_url fmt url, 10000))
                              (spec_batches (nat c) urls ! k))])) =
      replicate (length (concat (take k (spec_batches (nat c) urls))) +
                 length (spec_batches (nat c) urls ! k)) 10000"
    by (simp add: requests_of_append requests_of_batch_events replicate_add)
  with tr' show ?thesis by blast
qed

lemma filterPhase_timeouts:
  assumes "filterPhase net slugs tr = Some (res, tr')"
  shows "\<exists>new k. tr' = tr @ new \<and> map snd (requests_of new) = replicate k 10000"
proof -
  have "(1::int) \<le> reqConcurrency" by (simp add: reqConcurrency_def)
  from makeConcurrentHttpsReqs_timeouts[OF this assms[unfolded filterPhase_def]]
  show ?thesis .
qed

lemma downloadPhase_timeouts:
  assumes "downloadPhase net txtUrls tr = Some (res, tr')"
  shows "\<exists>new k. tr' = tr @ new \<and> map snd (requests_of new) = replicate k 10000"
proof -
  have "(1::int) \<le> reqConcurrency" by (simp add: reqConcurrency_def)
  from makeConcurrentHttpsReqs_timeouts[OF this assms[unfolded downloadPhase_def]]
  show ?thesis .
qed

text \<open>The run, step by step.\<close>

lemma main_requests:
  assumes "main env = Some (res, tr)"
  shows "requests_of tr = [] \<or>
         (\<exists>rest k. requests_of tr = (listUrl, 5000) # rest \<and> map snd rest = replicate k 10000)"
proof (cases "outputRawExists env \<or> mkdirSync env \<noteq> None")
  case True
  with assms have "tr = [ConsoleClear, ConsoleLog Done] \<or> tr = [ConsoleClear, MkdirSync]"
    by (auto simp: main_def split: if_splits)
  then show ?thesis by auto
next
  case False
  define tr1 where "tr1 = [ConsoleClear, MkdirSync, ConsoleLog GettingSlugs, Get listUrl 5000]"
  have r1: "requests_of tr1 = [(listUrl, 5000)]" by (simp add: tr1_def)
  have shape: "\<exists>late k. tr = tr1 @ late \<and> map snd (requests_of late) = replicate k 10000"
  proof (cases "snd (axios_get (http env) listUrl 5000)")
    case (Inl e)
    with assms False have "tr = tr1 @ []" by (simp add: main_def tr1_def)
    then show ?thesis by (intro exI[of _ "[]"] exI[of _ 0]) simp
  next
    case (Inr listRes)
    show ?thesis
    proof (cases "TextsDataCodec (data listRes)")
      case Left
      with assms False Inr have "tr = tr1 @ []" by (simp add: main_def tr1_def)
      then show ?thesis by (intro exI[of _ "[]"] exI[of _ 0]) simp
    next
      case (Right textObjs)
      define slugs where "slugs = map slug textObjs"
      define tr2 where "tr2 = tr1 @ [ConsoleLog FilteringCollections, BarStart (length slugs)]"
      obtain res3 tr3 where p1: "filterPhase (http env) slugs tr2 = Some (res3, tr3)"
        using assms False Inr Right
        by (cases "filterPhase (http env) slugs tr2")
           (auto simp: main_def tr1_def tr2_def slugs_def Let_def)
      from filterPhase_timeouts[OF p1] obtain new1 k1 where
        tr3: "tr3 = tr2 @ new1" and n1: "map snd (requests_of new1) = replicate k1 10000"
        by blast
      show ?thesis
      proof (cases res3)
        case (Inl e)
        with assms False Inr Right p1 have "tr = tr3"
          by (simp add: main_def tr1_def tr2_def slugs_def Let_def)
        then have "tr = tr1 @ ([ConsoleLog FilteringCollections, BarStart (length slugs)] @ new1)"
          by (simp add: tr3 tr2_def)
        moreover have "map snd (requests_of
            ([ConsoleLog FilteringCollections, BarStart (length slugs)] @ new1)) =
            replicate k1 10000"
          using n1 by simp
        ultimately show ?thesis by blast
      next
        case (Inr txtUrls)
        note res3 = this
        define tr4 where "tr4 = tr3 @ [ConsoleLog DownloadingTexts, BarStart (length txtUrls)]"
        obtain res5 tr5 where p2: "downloadPhase (http env) txtUrls tr4 = Some (res5, tr5)"
          using assms False \<open>snd (axios_get (http env) listUrl 5000) = Inr listRes\<close> Right p1 res3
          by (cases "downloadPhase (http env) txtUrls tr4")
             (auto simp: main_def tr1_def tr2_def tr4_def slugs_def Let_def)
        from downloadPhase_timeouts[OF p2] obtain new2 k2 where
          tr5: "tr5 = tr4 @ new2" and n2: "map snd (requests_of new2) = replicate k2 10000"
          by blast
        have "\<exists>tail. tr = tr5 @ tail \<and> requests_of tail = []"
        proof (cases res5)
          case (Inl e)
          with assms False \<open>snd (axios_get (http env) listUrl 5000) = Inr listRes\<close> Right p1 res3 p2
          have "tr = tr5 @ []"
            by (simp add: main_def tr1_def tr2_def tr4_def slugs_def Let_def)
          then show ?thesis by (intro exI[of _ "[]"]) simp
        next
          case (Inr writes)
          define tr6 where "tr6 = tr5 @ map (\<lambda>(name, text). WriteFile name text) writes"
          have "tr = tr6 \<or> tr = tr6 @ [ConsoleLog Done]"
            using assms False \<open>snd (axios_get (http env) listUrl 5000) = Inr listRes\<close>
              Right p1 res3 p2 Inr
            by (cases "Promise_all (map (\<lambda>(name, text). writeFile env name text) writes)")
               (simp_all add: main_def tr1_def tr2_def tr4_def tr6_def slugs_def Let_def)
          then show ?thesis
          proof
            assume "tr = tr6"
            then show ?thesis
              by (intro exI[of _ "map (\<lambda>(name, text). WriteFile name text) writes"])
                 (simp add: tr6_def requests_of_writes)
          next
            assume "tr = tr6 @ [ConsoleLog Done]"
            then show ?thesis
              by (intro exI[of _ "map (\<lambda>(name, text). WriteFile name text) writes @
                                   [ConsoleLog Done]"])
                 (simp add: tr6_def requests_of_append requests_of_writes)
          qed
        qed
        then obtain tail where tail: "tr = tr5 @ tail" "requests_of tail = []" by blast
        have "tr = tr1 @ ([ConsoleLog FilteringCollections, BarStart (length slugs)] @ new1 @
                 [ConsoleLog DownloadingTexts, BarStart (length txtUrls)] @ new2 @ tail)"
          by (simp add: tail tr5 tr4_def tr3 tr2_def)
        moreover have "map snd (requests_of
               ([ConsoleLog FilteringCollections, BarStart (length slugs)] @ new1 @
                 [ConsoleLog DownloadingTexts, BarStart (length txtUrls)] @ new2 @ tail)) =
               replicate (k1 + k2) 10000"
          using n1 n2 tail(2) by (simp add: requests_of_append replicate_add)
        ultimately show ?thesis by blast
      qed
    qed
  qed
  then obtain late k where "tr = tr1 @ late" "map snd (requests_of late) = replicate k 10000"
    by blast
  then have "requests_of tr = (listUrl, 5000) # requests_of late"
    by (simp add: requests_of_append r1)
  with \<open>map snd (requests_of late) = replicate k 10000\<close> show ?thesis by blast
qed

lemmas run_defs = main_def filterPhase_def downloadPhase_def example_env_def

section \<open>Fields outside the contracts\<close>

lemma map_of_extra:
  "k \<noteq> key \<Longrightarrow> map_of (before @ (k, x) # after) key = map_of (before @ after) key"
  by (induction before) auto

lemma get_prop_extra:
  assumes "k \<noteq> key"
  shows "get_prop (JObj (before @ (k, x) # after)) key = get_prop (JObj (before @ after)) key"
proof -
  have "map_of (before @ (k, x) # after) key = map_of (before @ after) key"
    using assms by (rule map_of_extra)
  then show ?thesis by (simp only: get_prop.simps)
qed

lemma all_right_map_Right:
  assumes "\<forall>x \<in> set xs. item x = Right (f x)"
  shows "all_right (map item xs) = Right (map f xs)"
  using assms by (induction xs) simp_all

lemma slug_entry:
  assumes "get_prop entry ''slug'' = JStr s"
  shows "(if is_record entry
          then (case t_string (get_prop entry ''slug'') of
                  Right s \<Rightarrow> Right \<lparr>slug = s\<rparr>
                | Left \<Rightarrow> Left)
          else Left) = Right \<lparr>slug = s\<rparr>"
proof -
  have "is_record entry" using assms by (intro get_prop_record[of entry "''slug''"]) simp
  then show ?thesis using assms by (simp add: t_string_def)
qed

section \<open>The first failing batch\<close>

lemma batch_fulfilled:
  assumes "Promise_all (map (\<lambda>u. axios_get net u 10000) (map (target_url fmt) b)) = Inr vs"
  shows "\<forall>target \<in> set b. \<not> isl (snd (net (target_url fmt target) 10000))"
proof -
  have "\<forall>p \<in> set (map (\<lambda>u. axios_get net u 10000) (map (target_url fmt) b)). \<not> isl (snd p)"
    using assms Promise_all_fulfils by blast
  then show ?thesis by (simp add: isl_snd_axios_get)
qed

lemma runBatches_first_failure:
  assumes "runBatches net up fmt bs acc tr = (Inl e, tr')"
  shows "\<exists>k < length bs.
           tr' = tr @ concat (map (batch_events up fmt) (take k bs)) @
                   [GetAll (map (\<lambda>url. (target_url fmt url, 10000)) (bs ! k))] \<and>
           Promise_all (map (\<lambda>u. axios_get net u 10000) (map (target_url fmt) (bs ! k))) = Inl e \<and>
           (\<forall>j < k. \<forall>target \<in> set (bs ! j).
              \<not> isl (snd (net (target_url fmt target) 10000)))"
  using assms
proof (induction bs arbitrary: acc tr)
  case Nil
  then show ?case by simp
next
  case (Cons b bs)
  let ?ps = "map (\<lambda>u. axios_get net u 10000) (map (target_url fmt) b)"
  show ?case
  proof (cases "Promise_all ?ps")
    case (Inl e')
    with Cons.prems have "e' = e"
      and "tr' = tr @ [GetAll (map (\<lambda>url. (target_url fmt url, 10000)) b)]"
      by (simp_all add: Let_def comp_def)
    with Inl show ?thesis
      by (intro exI[of _ 0]) simp
  next
    case (Inr vs)
    let ?tr1 = "tr @ batch_events up fmt b"
    have run: "runBatches net up fmt bs (acc @ vs) ?tr1 = (Inl e, tr')"
      using Cons.prems Inr by (cases up) (simp_all add: Let_def batch_events_def comp_def)
    from Cons.IH[OF run] obtain k where k: "k < length bs"
      "tr' = ?tr1 @ concat (map (batch_events up fmt) (take k bs)) @
                   [GetAll (map (\<lambda>url. (target_url fmt url, 10000)) (bs ! k))]"
      "Promise_all (map (\<lambda>u. axios_get net u 10000) (map (target_url fmt) (bs ! k))) = Inl e"
      "\<forall>j < k. \<forall>target \<in> set (bs ! j). \<not> isl (snd (net (target_url fmt target) 10000))"
      by blast
    have here: "\<forall>target \<in> set b. \<not> isl (snd (net (target_url fmt target) 10000))"
      using Inr by (rule batch_fulfilled)
    have before: "\<forall>j < Suc k. \<forall>target \<in> set ((b # bs) ! j).
                    \<not> isl (snd (net (target_url fmt target) 10000))"
    proof (intro allI impI)
      fix j assume "j < Suc k"
      then show "\<forall>target \<in> set ((b # bs) ! j).
                   \<not> isl (snd (net (target_url fmt target) 10000))"
        using here k(4) by (cases j) simp_all
    qed
    from k(1,2,3) before show ?thesis
      by (intro exI[of _ "Suc k"]) simp
  qed
qed

lemma makeConcurrentHttpsReqs_first_failure:
  assumes "1 \<le> c"
    and "makeConcurrentHttpsReqs net urls c pd up fmt tr = Some (Inl e, tr')"
  shows "\<exists>k < length (spec_batches (nat c) urls).
           tr' = tr @ concat (map (batch_events up fmt) (take k (spec_batches (nat c) urls))) @
                   [GetAll (map (\<lambda>url. (target_url fmt url, 10000))
                              (spec_batches (nat c) urls ! k))] \<and>
           Promise_all (map (\<lambda>u. axios_get net u 10000)
                          (map (target_url fmt) (spec_batches (nat c) urls ! k))) = Inl e \<and>
           (\<forall>j < k. \<forall>target \<in> set (spec_batches (nat c) urls ! j).
              \<not> isl (snd (net (target_url fmt target) 10000)))"
proof -
  from assms have "runBatches net up fmt (spec_batches (nat c) urls) [] tr = (Inl e, tr')"
    by (auto simp: makeConcurrentHttpsReqs_runs split: prod.splits sum.splits)
  then show ?thesis by (rule runBatches_first_failure)
qed

lemma Promise_all_error:
  assumes "Promise_all (map (\<lambda>u. axios_get net u 10000) (map (target_url fmt) b)) = Inl e"
  shows "\<exists>failing \<in> set b. snd (net (target_url fmt failing) 10000) = Inl e"
proof -
  from assms obtain t where
    "(t, Inl e) \<in> set (map (\<lambda>u. axios_get net u 10000) (map (target_url fmt) b))"
    using Promise_all_Inl by blast
  then obtain target where target: "target \<in> set b"
    "axios_get net (target_url fmt target) 10000 = (t, Inl e)"
    by auto
  then have "snd (net (target_url fmt target) 10000) = Inl e"
    using snd_axios_get[of net "target_url fmt target" 10000]
    by (simp split: sum.splits)
  with target(1) show ?thesis by blast
qed

lemma makeConcurrentHttpsReqs_fulfilled:
  assumes "1 \<le> c"
    and "\<forall>url \<in> set urls. \<not> isl (snd (net (target_url fmt url) 10000))"
  shows "\<exists>acc tr'. makeConcurrentHttpsReqs net urls c pd up fmt tr = Some (Inr acc, tr')"
proof -
  from makeConcurrentHttpsReqs_total[OF assms(1)] obtain res tr' where
    run: "makeConcurrentHttpsReqs net urls c pd up fmt tr = Some (res, tr')"
    by fastforce
  show ?thesis
  proof (cases res)
    case (Inr acc)
    with run show ?thesis by blast
  next
    case (Inl e)
    from makeConcurrentHttpsReqs_Inl[OF assms(1) run[unfolded Inl]] obtain k failing where
      k: "k < length (spec_batches (nat c) urls)" and
      f: "failing \<in> set (spec_batches (nat c) urls ! k)"
         "snd (net (target_url fmt failing) 10000) = Inl e"
      by blast
    from k have "spec_batches (nat c) urls ! k \<in> set (spec_batches (nat c) urls)" by simp
    with f(1) have "failing \<in> set (concat (spec_batches (nat c) urls))" by auto
    then have "failing \<in> set urls" using assms(1) by (simp add: concat_spec_batches)
    with assms(2) f(2) have False by auto
    then show ?thesis ..
  qed
qed

lemma makeConcurrentHttpsReqs_first_iteration:
  assumes "c \<le> 0" "urls \<noteq> []"
  shows "makeConcurrentHttpsReqs net urls c pd up fmt tr =
           (case Promise_all (map (\<lambda>target. axios_get net (target_url fmt target) 10000)
                                (slice urls 0 c)) of
              Inl e \<Rightarrow> Some (Inl e, tr @ [GetAll (map (\<lambda>target. (target_url fmt target, 10000))
                                                  (slice urls 0 c))])
            | Inr rs \<Rightarrow> None)"
proof -
  have same: "map (\<lambda>u. axios_get net u 10000) (map (target_url fmt) (slice urls 0 c)) =
              map (\<lambda>target. axios_get net (target_url fmt target) 10000) (slice urls 0 c)"
    by (simp add: comp_def)
  show ?thesis
    using batchLoop_nonpositive[OF assms, of net up fmt "[]" tr]
    unfolding same
    by (cases "Promise_all (map (\<lambda>target. axios_get net (target_url fmt target) 10000)
                              (slice urls 0 c))")
       (simp_all add: makeConcurrentHttpsReqs_def)
qed

section \<open>The claims\<close>



text \<open>
  C2. For every target list and every concurrency of at least 1, when no request fails, a
  call without \<open>processData\<close> returns its accumulator, and it is exactly the bodies of the
  responses: as many as there are targets, and at each position the body with which the
  request for the target at that position was fulfilled. Whatever the concurrency, an
  accumulator that such a call returns is that list of bodies.
\<close>

theorem passthrough_fold:
  "(1 \<le> c \<and> (\<forall>url \<in> set urls. \<not> isl (snd (net (target_url fmt url) 10000))) \<longrightarrow>
      (\<exists>acc new.
         makeConcurrentHttpsReqs_default net urls c up fmt tr = Some (Inr acc, tr @ new) \<and>
         length acc = length urls \<and>
         map Inr acc = map (\<lambda>url. snd (net (target_url fmt url) 10000)) urls)) \<and>
   (\<forall>acc tr'.
      makeConcurrentHttpsReqs_default net urls c up fmt tr = Some (Inr acc, tr') \<longrightarrow>
      length acc = length urls \<and>
      map Inr acc = map (\<lambda>url. snd (net (target_url fmt url) 10000)) urls)"
proof -
  have bodies: "length acc = length urls \<and>
      map Inr acc = map (\<lambda>url. snd (net (target_url fmt url) 10000)) urls"
    if run: "makeConcurrentHttpsReqs_default net urls c up fmt tr = Some (Inr acc, tr')"
    for acc tr'
  proof -
    have "makeConcurrentHttpsReqs net urls c pushData up fmt tr = Some (Inr acc, tr')"
      using run by (simp add: makeConcurrentHttpsReqs_default_def)
    from makeConcurrentHttpsReqs_returns[OF this] obtain rs where
      acc: "acc = foldl pushData [] rs" and
      rs: "map (\<lambda>r. Inr (data r)) rs =
             map (\<lambda>url. snd (net (target_url fmt url) 10000)) urls"
      by blast
    from acc have "acc = map data rs" by (simp add: foldl_pushData)
    with rs have "map Inr acc = map (\<lambda>url. snd (net (target_url fmt url) 10000)) urls"
      by (simp add: comp_def)
    moreover from this have "length acc = length urls"
      using map_eq_imp_length_eq by fastforce
    ultimately show ?thesis by simp
  qed
  have returns: "\<exists>acc new.
         makeConcurrentHttpsReqs_default net urls c up fmt tr = Some (Inr acc, tr @ new) \<and>
         length acc = length urls \<and>
         map Inr acc = map (\<lambda>url. snd (net (target_url fmt url) 10000)) urls"
    if c: "1 \<le> c" and ok: "\<forall>url \<in> set urls. \<not> isl (snd (net (target_url fmt url) 10000))"
  proof -
    from makeConcurrentHttpsReqs_fulfilled[where net = net and fmt = fmt, OF c ok]
    obtain acc tr' where
      run: "makeConcurrentHttpsReqs net urls c pushData up fmt tr = Some (Inr acc, tr')"
      by blast
    from makeConcurrentHttpsReqs_Inr[OF c run] obtain new where "tr' = tr @ new" by blast
    with run have call:
      "makeConcurrentHttpsReqs_default net urls c up fmt tr = Some (Inr acc, tr @ new)"
      by (simp add: makeConcurrentHttpsReqs_default_def)
    from bodies[OF call] call show ?thesis by blast
  qed
  from bodies returns show ?thesis by blast
qed

theorem passthrough_fold_witness:
  "makeConcurrentHttpsReqs_default example_net [''a'', ''b'', ''c''] 2 True (Some detailUrl) [] =
     Some (Inr [example_detail ''a'' [], example_detail ''b'' [''b-1''], example_detail ''c'' []],
           [GetAll [(detailUrl ''a'', 10000), (detailUrl ''b'', 10000)], UpdateProgress 2,
            GetAll [(detailUrl ''c'', 10000)], UpdateProgress 1]) \<and>
   (\<exists>acc new.
      makeConcurrentHttpsReqs_default example_net [''a'', ''b'', ''c''] 2 True (Some detailUrl) [] =
        Some (Inr acc, [] @ new) \<and>
      length acc = length [''a'', ''b'', ''c''] \<and>
      map Inr acc =
        map (\<lambda>url. snd (example_net (target_url (Some detailUrl) url) 10000))
          [''a'', ''b'', ''c'']) \<and>
   map Inr [example_detail ''a'' [], example_detail ''b'' [''b-1''], example_detail ''c'' []] =
     map (\<lambda>url. snd (example_net (target_url (Some detailUrl) url) 10000)) [''a'', ''b'', ''c'']"
proof -
  have c: "(1::int) \<le> 2" by simp
  have ok: "\<forall>url \<in> set [''a'', ''b'', ''c''].
              \<not> isl (snd (example_net (target_url (Some detailUrl) url) 10000))"
    by (simp add: target_url_def eval_defs)
  have run: "makeConcurrentHttpsReqs_default example_net [''a'', ''b'', ''c''] 2 True
               (Some detailUrl) [] =
     Some (Inr [example_detail ''a'' [], example_detail ''b'' [''b-1''], example_detail ''c'' []],
           [GetAll [(detailUrl ''a'', 10000), (detailUrl ''b'', 10000)], UpdateProgress 2,
            GetAll [(detailUrl ''c'', 10000)], UpdateProgress 1])"
    by (simp add: eval_defs)
  note at = passthrough_fold[where net = example_net and fmt = "Some detailUrl" and c = 2
      and urls = "[''a'', ''b'', ''c'']" and up = True and tr = "[]"]
  from at c ok have returns: "\<exists>acc new.
      makeConcurrentHttpsReqs_default example_net [''a'', ''b'', ''c''] 2 True (Some detailUrl) [] =
        Some (Inr acc, [] @ new) \<and>
      length acc = length [''a'', ''b'', ''c''] \<and>
      map Inr acc =
        map (\<lambda>url. snd (example_net (target_url (Some detailUrl) url) 10000))
          [''a'', ''b'', ''c'']"
    by blast
  from at run have "map Inr [example_detail ''a'' [], example_detail ''b'' [''b-1''],
                             example_detail ''c'' []] =
     map (\<lambda>url. snd (example_net (target_url (Some detailUrl) url) 10000)) [''a'', ''b'', ''c'']"
    by blast
  with run returns show ?thesis by blast
qed

text \<open>
  C3. The detail contract accepts a body exactly when its \<open>language\<close> is the configured
  literal, its \<open>children\<close> is the empty array and its \<open>txt\<close> is a string, and the fields of
  an accepted body come out unchanged; a body without \<open>txt\<close>, with a child, or with another
  language is rejected. The filtering reduction function, folded over any list of responses,
  gives the \<open>txt\<close> values of the accepted bodies in the order of the list, so no more than
  there are responses; and a call with it that returns gives no more values than there were
  targets: the \<open>txt\<close> values of the accepted ones among the bodies returned for the targets.
\<close>

theorem filtering_fold:
  "(TextDetailCodec d \<noteq> Left \<longleftrightarrow> spec_detail_contract d) \<and>
   (\<forall>v. TextDetailCodec d = Right v \<longrightarrow>
      JStr (txt v) = get_prop d ''txt'' \<and> JStr (language v) = get_prop d ''language'' \<and>
      JArr (map JStr (children v)) = get_prop d ''children'') \<and>
   (get_prop d ''txt'' = JUndefined \<longrightarrow> TextDetailCodec d = Left) \<and>
   ((\<exists>x xs. get_prop d ''children'' = JArr (x # xs)) \<longrightarrow> TextDetailCodec d = Left) \<and>
   (get_prop d ''language'' \<noteq> JStr textsLang \<longrightarrow> TextDetailCodec d = Left) \<and>
   map JStr (foldl filterCollections [] rs) =
     map (\<lambda>r. get_prop (data r) ''txt'') (filter (\<lambda>r. spec_detail_contract (data r)) rs) \<and>
   length (foldl filterCollections [] rs) \<le> length rs \<and>
   (makeConcurrentHttpsReqs net urls c filterCollections up fmt tr = Some (Inr acc, tr') \<longrightarrow>
      length acc \<le> length urls \<and>
      (\<exists>bodies. map Inr bodies = map (\<lambda>url. snd (net (target_url fmt url) 10000)) urls \<and>
         map JStr acc = map (\<lambda>b. get_prop b ''txt'') (filter spec_detail_contract bodies)))"
proof -
  have accepts: "TextDetailCodec d \<noteq> Left \<longleftrightarrow> spec_detail_contract d"
    by (rule TextDetailCodec_accepts)
  have unchanged: "\<forall>v. TextDetailCodec d = Right v \<longrightarrow>
      JStr (txt v) = get_prop d ''txt'' \<and> JStr (language v) = get_prop d ''language'' \<and>
      JArr (map JStr (children v)) = get_prop d ''children''"
    by (simp add: TextDetailCodec_Right)
  have no_txt: "get_prop d ''txt'' = JUndefined \<longrightarrow> TextDetailCodec d = Left"
    by (auto intro!: TextDetailCodec_rejects simp: spec_detail_contract_def)
  have has_children: "(\<exists>x xs. get_prop d ''children'' = JArr (x # xs)) \<longrightarrow> TextDetailCodec d = Left"
    by (auto intro!: TextDetailCodec_rejects simp: spec_detail_contract_def)
  have other_language: "get_prop d ''language'' \<noteq> JStr textsLang \<longrightarrow> TextDetailCodec d = Left"
    by (auto intro!: TextDetailCodec_rejects simp: spec_detail_contract_def)
  have fold: "map JStr (foldl filterCollections [] rs) =
     map (\<lambda>r. get_prop (data r) ''txt'') (filter (\<lambda>r. spec_detail_contract (data r)) rs)"
    using foldl_filterCollections[of "[]" rs] by simp
  have shorter: "length (foldl filterCollections [] rs) \<le> length rs"
    using length_foldl_filterCollections[of "[]" rs] by simp
  have call: "makeConcurrentHttpsReqs net urls c filterCollections up fmt tr = Some (Inr acc, tr') \<longrightarrow>
      length acc \<le> length urls \<and>
      (\<exists>bodies. map Inr bodies = map (\<lambda>url. snd (net (target_url fmt url) 10000)) urls \<and>
         map JStr acc = map (\<lambda>b. get_prop b ''txt'') (filter spec_detail_contract bodies))"
  proof
    assume "makeConcurrentHttpsReqs net urls c filterCollections up fmt tr = Some (Inr acc, tr')"
    from makeConcurrentHttpsReqs_returns[OF this] obtain rs' where
      acc: "acc = foldl filterCollections [] rs'" and
      bodies: "map (\<lambda>r. Inr (data r)) rs' =
                 map (\<lambda>url. snd (net (target_url fmt url) 10000)) urls"
      by blast
    have len: "length rs' = length urls"
      using bodies map_eq_imp_length_eq by fastforce
    have "length acc \<le> length urls"
      using length_foldl_filterCollections[of "[]" rs'] acc len by simp
    moreover have "map Inr (map data rs') =
                     map (\<lambda>url. snd (net (target_url fmt url) 10000)) urls"
      using bodies by (simp add: comp_def)
    moreover have "map JStr acc =
        map (\<lambda>b. get_prop b ''txt'') (filter spec_detail_contract (map data rs'))"
      using foldl_filterCollections[of "[]" rs'] acc by (simp add: filter_map comp_def)
    ultimately show "length acc \<le> length urls \<and>
      (\<exists>bodies. map Inr bodies = map (\<lambda>url. snd (net (target_url fmt url) 10000)) urls \<and>
         map JStr acc = map (\<lambda>b. get_prop b ''txt'') (filter spec_detail_contract bodies))"
      by blast
  qed
  from accepts unchanged no_txt has_children other_language fold shorter call
  show ?thesis by (intro conjI)
qed

theorem filtering_fold_witness:
  "spec_detail_contract (example_detail ''a'' []) \<and>
   TextDetailCodec (example_detail ''a'' []) \<noteq> Left \<and>
   get_prop (example_detail ''b'' [''b-1'']) ''children'' = JArr [JStr ''b-1''] \<and>
   TextDetailCodec (example_detail ''b'' [''b-1'']) = Left \<and>
   makeConcurrentHttpsReqs example_net [''a'', ''b'', ''c''] 2 filterCollections True
       (Some detailUrl) [] =
     Some (Inr [txtUrl ''a'', txtUrl ''c''],
           [GetAll [(detailUrl ''a'', 10000), (detailUrl ''b'', 10000)], UpdateProgress 2,
            GetAll [(detailUrl ''c'', 10000)], UpdateProgress 1]) \<and>
   length [txtUrl ''a'', txtUrl ''c''] \<le> length [''a'', ''b'', ''c''] \<and>
   (\<exists>bodies.
      map Inr bodies =
        map (\<lambda>url. snd (example_net (target_url (Some detailUrl) url) 10000))
          [''a'', ''b'', ''c''] \<and>
      map JStr [txtUrl ''a'', txtUrl ''c''] =
        map (\<lambda>b. get_prop b ''txt'') (filter spec_detail_contract bodies))"
proof -
  have a: "spec_detail_contract (example_detail ''a'' [])"
    by (simp add: spec_detail_contract_def example_detail_def textsLang_def)
  have b: "get_prop (example_detail ''b'' [''b-1'']) ''children'' = JArr [JStr ''b-1'']"
    by (simp add: example_detail_def)
  have run: "makeConcurrentHttpsReqs example_net [''a'', ''b'', ''c''] 2 filterCollections True
       (Some detailUrl) [] =
     Some (Inr [txtUrl ''a'', txtUrl ''c''],
           [GetAll [(detailUrl ''a'', 10000), (detailUrl ''b'', 10000)], UpdateProgress 2,
            GetAll [(detailUrl ''c'', 10000)], UpdateProgress 1])"
    by (simp add: eval_defs)
  note at_a = filtering_fold[of "example_detail ''a'' []" "[]" example_net "[''a'', ''b'', ''c'']" 2
      True "Some detailUrl" "[]" "[txtUrl ''a'', txtUrl ''c'']"
      "[GetAll [(detailUrl ''a'', 10000), (detailUrl ''b'', 10000)], UpdateProgress 2,
        GetAll [(detailUrl ''c'', 10000)], UpdateProgress 1]"]
  note at_b = filtering_fold[of "example_detail ''b'' [''b-1'']" "[]" example_net "[]" 2
      True None "[]" "[]" "[]"]
  from at_a a have "TextDetailCodec (example_detail ''a'' []) \<noteq> Left" by blast
  moreover from at_b b have "TextDetailCodec (example_detail ''b'' [''b-1'']) = Left" by blast
  moreover from at_a run have "length [txtUrl ''a'', txtUrl ''c''] \<le> length [''a'', ''b'', ''c''] \<and>
   (\<exists>bodies.
      map Inr bodies =
        map (\<lambda>url. snd (example_net (target_url (Some detailUrl) url) 10000))
          [''a'', ''b'', ''c''] \<and>
      map JStr [txtUrl ''a'', txtUrl ''c''] =
        map (\<lambda>b. get_prop b ''txt'') (filter spec_detail_contract bodies))"
    by blast
  ultimately show ?thesis using a b run by blast
qed

text \<open>
  C4. For every target list and every concurrency of at least 1: when the request for one of
  the targets fails, the call fails and returns no accumulator. It stops at the first batch
  that holds a failing request: every request of the batches before it was fulfilled, the
  trace ends with the requests of that batch (no callback for it, no later batch, nothing
  requested twice), and the error is the one with which \<open>Promise.all\<close> of that batch is
  rejected, the error of a failing request of that batch; it is the error of the given
  request when no other request fails.
\<close>

theorem failure_atomicity:
  assumes "1 \<le> c" and "url \<in> set urls"
    and "snd (net (target_url fmt url) 10000) = Inl e"
  shows "\<exists>e' new k.
           makeConcurrentHttpsReqs net urls c processData up fmt tr = Some (Inl e', tr @ new) \<and>
           k < length (spec_batches (nat c) urls) \<and>
           (\<forall>j < k. \<forall>target \<in> set (spec_batches (nat c) urls ! j).
              \<not> isl (snd (net (target_url fmt target) 10000))) \<and>
           (\<exists>failing \<in> set (spec_batches (nat c) urls ! k).
              snd (net (target_url fmt failing) 10000) = Inl e') \<and>
           Promise_all (map (\<lambda>target. axios_get net (target_url fmt target) 10000)
                          (spec_batches (nat c) urls ! k)) = Inl e' \<and>
           new = concat (map (batch_events up fmt) (take k (spec_batches (nat c) urls))) @
                 [GetAll (map (\<lambda>target. (target_url fmt target, 10000))
                            (spec_batches (nat c) urls ! k))] \<and>
           (\<forall>b \<in> set (butlast (batches_of new)). \<forall>req \<in> set b.
              \<not> isl (snd (net (fst req) 10000))) \<and>
           (\<exists>req \<in> set (last (batches_of new)). snd (net (fst req) 10000) = Inl e') \<and>
           last new = GetAll (last (batches_of new)) \<and>
           (\<exists>n. concat (batches_of new) =
                  take n (map (\<lambda>target. (target_url fmt target, 10000)) urls)) \<and>
           (\<exists>failing \<in> set urls. snd (net (target_url fmt failing) 10000) = Inl e') \<and>
           ((\<forall>other \<in> set urls. isl (snd (net (target_url fmt other) 10000)) \<longrightarrow>
               target_url fmt other = target_url fmt url) \<longrightarrow> e' = e)"
proof -
  define n where "n = nat c"
  have n: "0 < n" using assms(1) by (simp add: n_def)
  define bs where "bs = spec_batches n urls"
  let ?req = "\<lambda>target. (target_url fmt target, 10000::nat)"
  have "isl (snd (net (target_url fmt url) 10000))" using assms(3) by simp
  from makeConcurrentHttpsReqs_rejects[where net = net and fmt = fmt, OF assms(1,2) this]
  obtain e' tr' where
    run: "makeConcurrentHttpsReqs net urls c processData up fmt tr = Some (Inl e', tr')"
    by blast
  from makeConcurrentHttpsReqs_first_failure[OF assms(1) run] obtain k where
    k: "k < length bs" and
    tr': "tr' = tr @ concat (map (batch_events up fmt) (take k bs)) @ [GetAll (map ?req (bs ! k))]" and
    rejected: "Promise_all (map (\<lambda>u. axios_get net u 10000) (map (target_url fmt) (bs ! k))) = Inl e'" and
    before: "\<forall>j < k. \<forall>target \<in> set (bs ! j). \<not> isl (snd (net (target_url fmt target) 10000))"
    unfolding bs_def n_def by blast
  define new where
    "new = concat (map (batch_events up fmt) (take k bs)) @ [GetAll (map ?req (bs ! k))]"
  from Promise_all_error[OF rejected] have failing:
    "\<exists>failing \<in> set (bs ! k). snd (net (target_url fmt failing) 10000) = Inl e'" .
  have rejected': "Promise_all (map (\<lambda>target. axios_get net (target_url fmt target) 10000)
                                 (bs ! k)) = Inl e'"
    using rejected by (simp add: comp_def)
  have issued: "batches_of new = map (map ?req) (take (Suc k) bs)"
    using k by (simp add: new_def batches_of_append batches_of_batch_events take_Suc_conv_app_nth)
  have earlier: "butlast (batches_of new) = map (map ?req) (take k bs)"
    using k by (simp add: new_def batches_of_append batches_of_batch_events)
  have fulfilled_before: "\<forall>b \<in> set (butlast (batches_of new)). \<forall>req \<in> set b.
              \<not> isl (snd (net (fst req) 10000))"
  proof (intro ballI)
    fix b req assume b: "b \<in> set (butlast (batches_of new))" and req: "req \<in> set b"
    from b obtain j where j: "j < k" "b = map ?req (bs ! j)"
      using k by (auto simp: earlier in_set_conv_nth)
    with req obtain target where "target \<in> set (bs ! j)" "req = ?req target" by auto
    with before j(1) show "\<not> isl (snd (net (fst req) 10000))" by simp
  qed
  have lastb: "last (batches_of new) = map ?req (bs ! k)"
    by (simp add: new_def batches_of_append)
  with failing have last_fails:
    "\<exists>req \<in> set (last (batches_of new)). snd (net (fst req) 10000) = Inl e'"
    by auto
  have ends: "last new = GetAll (last (batches_of new))"
    using lastb by (simp add: new_def)
  have "bs ! k \<in> set bs" using k by simp
  then have "set (bs ! k) \<subseteq> set (concat bs)" by auto
  then have sub: "set (bs ! k) \<subseteq> set urls"
    using n by (simp add: bs_def concat_spec_batches)
  from failing sub have one: "\<exists>failing \<in> set urls. snd (net (target_url fmt failing) 10000) = Inl e'"
    by blast
  have only: "(\<forall>other \<in> set urls. isl (snd (net (target_url fmt other) 10000)) \<longrightarrow>
               target_url fmt other = target_url fmt url) \<longrightarrow> e' = e"
  proof
    assume alone: "\<forall>other \<in> set urls. isl (snd (net (target_url fmt other) 10000)) \<longrightarrow>
               target_url fmt other = target_url fmt url"
    from one obtain failing where f: "failing \<in> set urls"
      "snd (net (target_url fmt failing) 10000) = Inl e'" by blast
    with alone have "target_url fmt failing = target_url fmt url" by simp
    with f(2) assms(3) show "e' = e" by simp
  qed
  have "concat (batches_of new) = map ?req (concat (take (Suc k) bs))"
    by (simp add: issued map_concat)
  also have "\<dots> = map ?req (take (Suc k * n) urls)"
    using concat_take_spec_batches[OF n, of "Suc k" urls] by (simp add: bs_def)
  also have "\<dots> = take (Suc k * n) (map ?req urls)" by (simp add: take_map)
  finally have prefix: "\<exists>m. concat (batches_of new) = take m (map ?req urls)" by blast
  have run': "makeConcurrentHttpsReqs net urls c processData up fmt tr = Some (Inl e', tr @ new)"
    using run tr' by (simp add: new_def)
  have new': "new = concat (map (batch_events up fmt) (take k bs)) @ [GetAll (map ?req (bs ! k))]"
    by (simp add: new_def)
  show ?thesis
    using run' k before failing rejected' new' fulfilled_before last_fails ends prefix one only
    unfolding bs_def n_def
    apply -
    apply (rule exI[of _ e'], rule exI[of _ new], rule exI[of _ k])
    apply (intro conjI; assumption)
    done
qed

theorem failure_atomicity_witness:
  "snd (flaky_net (target_url None ''y'') 10000) = Inl NetworkError \<and>
   makeConcurrentHttpsReqs flaky_net [''z'', ''y''] 1 pushData True None [] =
     Some (Inl (NonSuccessStatus 404), [GetAll [(''z'', 10000)]]) \<and>
   makeConcurrentHttpsReqs flaky_net [''a'', ''z'', ''y''] 1 pushData True None [] =
     Some (Inl (NonSuccessStatus 404),
           [GetAll [(''a'', 10000)], UpdateProgress 1, GetAll [(''z'', 10000)]]) \<and>
   makeConcurrentHttpsReqs flaky_net [''z'', ''y''] 2 pushData True None [] =
     Some (Inl NetworkError, [GetAll [(''z'', 10000), (''y'', 10000)]]) \<and>
   (\<exists>e' new k.
      makeConcurrentHttpsReqs flaky_net [''a'', ''z'', ''y''] 1 pushData True None [] =
        Some (Inl e', [] @ new) \<and>
      k < length (spec_batches (nat 1) [''a'', ''z'', ''y'']) \<and>
      (\<forall>j < k. \<forall>target \<in> set (spec_batches (nat 1) [''a'', ''z'', ''y''] ! j).
         \<not> isl (snd (flaky_net (target_url None target) 10000))) \<and>
      (\<exists>failing \<in> set (spec_batches (nat 1) [''a'', ''z'', ''y''] ! k).
         snd (flaky_net (target_url None failing) 10000) = Inl e') \<and>
      (\<forall>b \<in> set (butlast (batches_of new)). \<forall>req \<in> set b.
         \<not> isl (snd (flaky_net (fst req) 10000))) \<and>
      (\<exists>req \<in> set (last (batches_of new)). snd (flaky_net (fst req) 10000) = Inl e') \<and>
      last new = GetAll (last (batches_of new)))"
proof -
  have c: "(1::int) \<le> 1" by simp
  have y: "''y'' \<in> set [''a'', ''z'', ''y'']" by simp
  have fails: "snd (flaky_net (target_url None ''y'') 10000) = Inl NetworkError"
    by (simp add: target_url_def flaky_net_def)
  have two: "makeConcurrentHttpsReqs flaky_net [''z'', ''y''] 1 pushData True None [] =
     Some (Inl (NonSuccessStatus 404), [GetAll [(''z'', 10000)]])"
    by (simp add: eval_defs)
  have three: "makeConcurrentHttpsReqs flaky_net [''a'', ''z'', ''y''] 1 pushData True None [] =
     Some (Inl (NonSuccessStatus 404),
           [GetAll [(''a'', 10000)], UpdateProgress 1, GetAll [(''z'', 10000)]])"
    by (simp add: eval_defs)
  have together: "makeConcurrentHttpsReqs flaky_net [''z'', ''y''] 2 pushData True None [] =
     Some (Inl NetworkError, [GetAll [(''z'', 10000), (''y'', 10000)]])"
    by (simp add: eval_defs)
  from failure_atomicity[where net = flaky_net and fmt = None and processData = pushData
      and up = True and tr = "[]", OF c y fails]
  have "\<exists>e' new k.
      makeConcurrentHttpsReqs flaky_net [''a'', ''z'', ''y''] 1 pushData True None [] =
        Some (Inl e', [] @ new) \<and>
      k < length (spec_batches (nat 1) [''a'', ''z'', ''y'']) \<and>
      (\<forall>j < k. \<forall>target \<in> set (spec_batches (nat 1) [''a'', ''z'', ''y''] ! j).
         \<not> isl (snd (flaky_net (target_url None target) 10000))) \<and>
      (\<exists>failing \<in> set (spec_batches (nat 1) [''a'', ''z'', ''y''] ! k).
         snd (flaky_net (target_url None failing) 10000) = Inl e') \<and>
      (\<forall>b \<in> set (butlast (batches_of new)). \<forall>req \<in> set b.
         \<not> isl (snd (flaky_net (fst req) 10000))) \<and>
      (\<exists>req \<in> set (last (batches_of new)). snd (flaky_net (fst req) 10000) = Inl e') \<and>
      last new = GetAll (last (batches_of new))"
    by blast
  with fails two three together show ?thesis by blast
qed

text \<open>
  C5. A works-list body that fails its contract ends the run with the error thrown by the
  program: the trace stops at the request for the list, so no detail is looked up and nothing
  is written. A detail body that fails its contract is left out by the reduction function:
  the accumulator is unchanged by it, and the fold over the other responses goes on as if
  the response were not there.
\<close>

theorem shape_mismatch_policy:
  "(\<not> outputRawExists env \<and> mkdirSync env = None \<and>
      snd (http env listUrl 5000) = Inr body \<and> TextsDataCodec body = Left \<longrightarrow>
      main env =
        Some (Inl (Error ''invalid texts data req response format''),
              [ConsoleClear, MkdirSync, ConsoleLog GettingSlugs, Get listUrl 5000])) \<and>
   (TextDetailCodec (data r) = Left \<longrightarrow>
      filterCollections acc r = acc \<and>
      foldl filterCollections acc (before @ r # after) =
        foldl filterCollections acc (before @ after))"
proof (intro conjI impI)
  assume a: "\<not> outputRawExists env \<and> mkdirSync env = None \<and>
      snd (http env listUrl 5000) = Inr body \<and> TextsDataCodec body = Left"
  then have "snd (axios_get (http env) listUrl 5000) = Inr \<lparr>config_url = listUrl, data = body\<rparr>"
    by (simp add: snd_axios_get)
  with a show "main env =
        Some (Inl (Error ''invalid texts data req response format''),
              [ConsoleClear, MkdirSync, ConsoleLog GettingSlugs, Get listUrl 5000])"
    by (simp add: main_def)
next
  assume "TextDetailCodec (data r) = Left"
  then show "filterCollections acc r = acc"
    by (simp add: filterCollections_def)
next
  assume "TextDetailCodec (data r) = Left"
  then show "foldl filterCollections acc (before @ r # after) =
        foldl filterCollections acc (before @ after)"
    by (rule foldl_filterCollections_Left)
qed

theorem shape_mismatch_policy_witness:
  "main (example_env\<lparr>http := echo_net\<rparr>) =
     Some (Inl (Error ''invalid texts data req response format''),
           [ConsoleClear, MkdirSync, ConsoleLog GettingSlugs, Get listUrl 5000]) \<and>
   TextDetailCodec (example_detail ''b'' [''b-1'']) = Left \<and>
   foldl filterCollections []
     [\<lparr>config_url = detailUrl ''a'', data = example_detail ''a'' []\<rparr>,
      \<lparr>config_url = detailUrl ''b'', data = example_detail ''b'' [''b-1'']\<rparr>,
      \<lparr>config_url = detailUrl ''c'', data = example_detail ''c'' []\<rparr>] =
   foldl filterCollections []
     [\<lparr>config_url = detailUrl ''a'', data = example_detail ''a'' []\<rparr>,
      \<lparr>config_url = detailUrl ''c'', data = example_detail ''c'' []\<rparr>] \<and>
   foldl filterCollections []
     [\<lparr>config_url = detailUrl ''a'', data = example_detail ''a'' []\<rparr>,
      \<lparr>config_url = detailUrl ''c'', data = example_detail ''c'' []\<rparr>] =
   [txtUrl ''a'', txtUrl ''c'']"
proof -
  have env: "\<not> outputRawExists (example_env\<lparr>http := echo_net\<rparr>) \<and>
      mkdirSync (example_env\<lparr>http := echo_net\<rparr>) = None \<and>
      snd (http (example_env\<lparr>http := echo_net\<rparr>) listUrl 5000) = Inr (JStr listUrl) \<and>
      TextsDataCodec (JStr listUrl) = Left"
    by (simp add: example_env_def echo_net_def TextsDataCodec_def t_array_def)
  have b: "TextDetailCodec
             (data \<lparr>config_url = detailUrl ''b'', data = example_detail ''b'' [''b-1'']\<rparr>) = Left"
    by (simp add: eval_defs)
  have rest: "foldl filterCollections []
     [\<lparr>config_url = detailUrl ''a'', data = example_detail ''a'' []\<rparr>,
      \<lparr>config_url = detailUrl ''c'', data = example_detail ''c'' []\<rparr>] =
   [txtUrl ''a'', txtUrl ''c'']"
    by (simp add: eval_defs)
  note policy = shape_mismatch_policy[of "example_env\<lparr>http := echo_net\<rparr>" "JStr listUrl"
      "\<lparr>config_url = detailUrl ''b'', data = example_detail ''b'' [''b-1'']\<rparr>" "[]"
      "[\<lparr>config_url = detailUrl ''a'', data = example_detail ''a'' []\<rparr>]"
      "[\<lparr>config_url = detailUrl ''c'', data = example_detail ''c'' []\<rparr>]"]
  from policy env have "main (example_env\<lparr>http := echo_net\<rparr>) =
     Some (Inl (Error ''invalid texts data req response format''),
           [ConsoleClear, MkdirSync, ConsoleLog GettingSlugs, Get listUrl 5000])"
    by blast
  moreover from policy b have "foldl filterCollections []
     ([\<lparr>config_url = detailUrl ''a'', data = example_detail ''a'' []\<rparr>] @
      \<lparr>config_url = detailUrl ''b'', data = example_detail ''b'' [''b-1'']\<rparr> #
      [\<lparr>config_url = detailUrl ''c'', data = example_detail ''c'' []\<rparr>]) =
   foldl filterCollections []
     ([\<lparr>config_url = detailUrl ''a'', data = example_detail ''a'' []\<rparr>] @
      [\<lparr>config_url = detailUrl ''c'', data = example_detail ''c'' []\<rparr>])"
    by blast
  ultimately show ?thesis using b rest by simp
qed



text \<open>
  C7. When the output directory exists at the start, the run does nothing but clear the
  console and print its closing line: the trace holds no request, no \<open>mkdir\<close> and no write.
\<close>

theorem run_idempotence:
  assumes "outputRawExists env"
  shows "main env = Some (Inr (), [ConsoleClear, ConsoleLog Done])"
  using assms by (simp add: main_def)

theorem run_idempotence_witness:
  "outputRawExists (example_env\<lparr>outputRawExists := True\<rparr>) \<and>
   main (example_env\<lparr>outputRawExists := True\<rparr>) = Some (Inr (), [ConsoleClear, ConsoleLog Done]) \<and>
   batches_of [ConsoleClear, ConsoleLog Done] = [] \<and>
   requests_of [ConsoleClear, ConsoleLog Done] = []"
proof -
  have e: "outputRawExists (example_env\<lparr>outputRawExists := True\<rparr>)" by simp
  from run_idempotence[OF e] e show ?thesis by simp
qed

text \<open>
  C8, as the specification has it, fails: the detail look-ups and the downloads of the example
  upstream all carry 10000 ms, so the look-ups are not shorter.
\<close>

theorem distinct_timeouts_counterexample:
  "map snd (requests_of (trace_of (filterPhase example_net [''a'', ''b'', ''c''] []))) =
     [10000, 10000, 10000] \<and>
   map snd (requests_of (trace_of (downloadPhase example_net [txtUrl ''a'', txtUrl ''c''] []))) =
     [10000, 10000] \<and>
   \<not> spec_shorter_timeouts
       (trace_of (filterPhase example_net [''a'', ''b'', ''c''] []))
       (trace_of (downloadPhase example_net [txtUrl ''a'', txtUrl ''c''] []))"
  by (simp add: spec_shorter_timeouts_def trace_of_def run_defs eval_defs)

text \<open>
  C8, amended. Every request carries a fixed timeout: the request for the works list, the
  first of a run, 5000 ms, and every request that \<open>makeConcurrentHttpsReqs\<close> issues 10000
  ms, at the detail look-ups and at the downloads alike.
\<close>

theorem fixed_timeouts:
  "(main env = Some (res, tr) \<longrightarrow>
      requests_of tr = [] \<or>
      (\<exists>rest k. requests_of tr = (listUrl, 5000) # rest \<and> map snd rest = replicate k 10000)) \<and>
   (filterPhase net slugs tr0 = Some (res1, tr1) \<longrightarrow>
      (\<exists>new k. tr1 = tr0 @ new \<and> map snd (requests_of new) = replicate k 10000)) \<and>
   (downloadPhase net txtUrls tr0 = Some (res2, tr2) \<longrightarrow>
      (\<exists>new k. tr2 = tr0 @ new \<and> map snd (requests_of new) = replicate k 10000))"
  using main_requests filterPhase_timeouts downloadPhase_timeouts by blast

theorem fixed_timeouts_witness:
  "main example_env =
     Some (Inr (),
       [ConsoleClear, MkdirSync, ConsoleLog GettingSlugs, Get listUrl 5000,
        ConsoleLog FilteringCollections, BarStart 3,
        GetAll [(detailUrl ''a'', 10000), (detailUrl ''b'', 10000), (detailUrl ''c'', 10000)],
        UpdateProgress 3, ConsoleLog DownloadingTexts, BarStart 2,
        GetAll [(txtUrl ''a'', 10000), (txtUrl ''c'', 10000)], UpdateProgress 2,
        WriteFile ''a.txt'' (JStr ''Litwo''), WriteFile ''c.txt'' (JStr ''Ojczyzno''),
        ConsoleLog Done]) \<and>
   (\<exists>rest k.
      requests_of
        [ConsoleClear, MkdirSync, ConsoleLog GettingSlugs, Get listUrl 5000,
         ConsoleLog FilteringCollections, BarStart 3,
         GetAll [(detailUrl ''a'', 10000), (detailUrl ''b'', 10000), (detailUrl ''c'', 10000)],
         UpdateProgress 3, ConsoleLog DownloadingTexts, BarStart 2,
         GetAll [(txtUrl ''a'', 10000), (txtUrl ''c'', 10000)], UpdateProgress 2,
         WriteFile ''a.txt'' (JStr ''Litwo''), WriteFile ''c.txt'' (JStr ''Ojczyzno''),
         ConsoleLog Done] = (listUrl, 5000) # rest \<and>
      map snd rest = replicate k 10000) \<and>
   filterPhase example_net [''a'', ''b'', ''c''] [] =
     Some (Inr [txtUrl ''a'', txtUrl ''c''],
       [GetAll [(detailUrl ''a'', 10000), (detailUrl ''b'', 10000), (detailUrl ''c'', 10000)],
        UpdateProgress 3]) \<and>
   downloadPhase example_net [txtUrl ''a'', txtUrl ''c''] [] =
     Some (Inr [(''a.txt'', JStr ''Litwo''), (''c.txt'', JStr ''Ojczyzno'')],
       [GetAll [(txtUrl ''a'', 10000), (txtUrl ''c'', 10000)], UpdateProgress 2])"
proof -
  have run: "main example_env =
     Some (Inr (),
       [ConsoleClear, MkdirSync, ConsoleLog GettingSlugs, Get listUrl 5000,
        ConsoleLog FilteringCollections, BarStart 3,
        GetAll [(detailUrl ''a'', 10000), (detailUrl ''b'', 10000), (detailUrl ''c'', 10000)],
        UpdateProgress 3, ConsoleLog DownloadingTexts, BarStart 2,
        GetAll [(txtUrl ''a'', 10000), (txtUrl ''c'', 10000)], UpdateProgress 2,
        WriteFile ''a.txt'' (JStr ''Litwo''), WriteFile ''c.txt'' (JStr ''Ojczyzno''),
        ConsoleLog Done])"
    by (simp add: run_defs eval_defs)
  have lookups: "filterPhase example_net [''a'', ''b'', ''c''] [] =
     Some (Inr [txtUrl ''a'', txtUrl ''c''],
       [GetAll [(detailUrl ''a'', 10000), (detailUrl ''b'', 10000), (detailUrl ''c'', 10000)],
        UpdateProgress 3])"
    by (simp add: run_defs eval_defs)
  have downloads: "downloadPhase example_net [txtUrl ''a'', txtUrl ''c''] [] =
     Some (Inr [(''a.txt'', JStr ''Litwo''), (''c.txt'', JStr ''Ojczyzno'')],
       [GetAll [(txtUrl ''a'', 10000), (txtUrl ''c'', 10000)], UpdateProgress 2])"
    by (simp add: run_defs eval_defs)
  have "requests_of
        [ConsoleClear, MkdirSync, ConsoleLog GettingSlugs, Get listUrl 5000,
         ConsoleLog FilteringCollections, BarStart 3,
         GetAll [(detailUrl ''a'', 10000), (detailUrl ''b'', 10000), (detailUrl ''c'', 10000)],
         UpdateProgress 3, ConsoleLog DownloadingTexts, BarStart 2,
         GetAll [(txtUrl ''a'', 10000), (txtUrl ''c'', 10000)], UpdateProgress 2,
         WriteFile ''a.txt'' (JStr ''Litwo''), WriteFile ''c.txt'' (JStr ''Ojczyzno''),
         ConsoleLog Done] \<noteq> []"
    by simp
  with fixed_timeouts[of example_env "Inr ()" _ example_net "[''a'', ''b'', ''c'']" "[]"
      "Inr [txtUrl ''a'', txtUrl ''c'']" _ "[txtUrl ''a'', txtUrl ''c'']"
      "Inr [(''a.txt'', JStr ''Litwo''), (''c.txt'', JStr ''Ojczyzno'')]"] run
  have "\<exists>rest k.
      requests_of
        [ConsoleClear, MkdirSync, ConsoleLog GettingSlugs, Get listUrl 5000,
         ConsoleLog FilteringCollections, BarStart 3,
         GetAll [(detailUrl ''a'', 10000), (detailUrl ''b'', 10000), (detailUrl ''c'', 10000)],
         UpdateProgress 3, ConsoleLog DownloadingTexts, BarStart 2,
         GetAll [(txtUrl ''a'', 10000), (txtUrl ''c'', 10000)], UpdateProgress 2,
         WriteFile ''a.txt'' (JStr ''Litwo''), WriteFile ''c.txt'' (JStr ''Ojczyzno''),
         ConsoleLog Done] = (listUrl, 5000) # rest \<and>
      map snd rest = replicate k 10000"
    by blast
  with run lookups downloads show ?thesis by blast
qed

text \<open>
  C9, as stated, fails: with concurrency -1 the first iteration requests all targets but the
  last, and when one of these requests fails the call ends, with that error.
\<close>

theorem loop_termination_counterexample:
  "makeConcurrentHttpsReqs_default example_net [''z'', ''b''] (- 1) False (Some detailUrl) [] =
     Some (Inl TimeoutExceeded, [GetAll [(detailUrl ''z'', 10000)]])"
  by (simp add: eval_defs)

text \<open>
  C9, amended. For every non-empty target list and integer concurrency: with a concurrency of
  at least 1 the call comes back. With a concurrency of 0 or less the index, a multiple of
  the concurrency, never passes the end of the list and the call never returns an
  accumulator; it runs forever exactly when no request of the first iteration fails, and so
  always with concurrency 0, whose batches are empty. When a request of the first iteration
  fails, the call ends after the requests of that iteration with the error with which
  \<open>Promise.all\<close> of them is rejected, the error of a failing request among them: that of
  the failing request, when it is the only one.
\<close>

theorem loop_termination:
  assumes "urls \<noteq> []"
  shows "(1 \<le> c \<longrightarrow> (\<exists>r. makeConcurrentHttpsReqs net urls c processData up fmt tr = Some r)) \<and>
         (c \<le> 0 \<longrightarrow>
            (\<forall>k. int k * c < int (length urls)) \<and>
            (\<forall>acc tr'. makeConcurrentHttpsReqs net urls c processData up fmt tr \<noteq>
                         Some (Inr acc, tr')) \<and>
            (makeConcurrentHttpsReqs net urls c processData up fmt tr = None \<longleftrightarrow>
               (\<forall>url \<in> set (slice urls 0 c). \<not> isl (snd (net (target_url fmt url) 10000)))) \<and>
            (\<forall>e. Promise_all (map (\<lambda>target. axios_get net (target_url fmt target) 10000)
                                 (slice urls 0 c)) = Inl e \<longrightarrow>
               makeConcurrentHttpsReqs net urls c processData up fmt tr =
                 Some (Inl e, tr @ [GetAll (map (\<lambda>target. (target_url fmt target, 10000))
                                              (slice urls 0 c))]) \<and>
               (\<exists>failing \<in> set (slice urls 0 c).
                  snd (net (target_url fmt failing) 10000) = Inl e)) \<and>
            ((\<exists>url \<in> set (slice urls 0 c). isl (snd (net (target_url fmt url) 10000))) \<longrightarrow>
               (\<exists>e. Promise_all (map (\<lambda>target. axios_get net (target_url fmt target) 10000)
                                    (slice urls 0 c)) = Inl e)) \<and>
            (\<forall>url e. url \<in> set (slice urls 0 c) \<and>
                     snd (net (target_url fmt url) 10000) = Inl e \<and>
                     (\<forall>other \<in> set (slice urls 0 c).
                        isl (snd (net (target_url fmt other) 10000)) \<longrightarrow>
                        target_url fmt other = target_url fmt url) \<longrightarrow>
               makeConcurrentHttpsReqs net urls c processData up fmt tr =
                 Some (Inl e, tr @ [GetAll (map (\<lambda>target. (target_url fmt target, 10000))
                                              (slice urls 0 c))]))) \<and>
         (c = 0 \<longrightarrow> makeConcurrentHttpsReqs net urls c processData up fmt tr = None)"
proof -
  let ?call = "makeConcurrentHttpsReqs net urls c processData up fmt tr"
  let ?first = "slice urls 0 c"
  let ?all = "Promise_all (map (\<lambda>target. axios_get net (target_url fmt target) 10000) ?first)"
  let ?tr1 = "tr @ [GetAll (map (\<lambda>target. (target_url fmt target, 10000)) ?first)]"
  have comes_back: "1 \<le> c \<longrightarrow> (\<exists>r. ?call = Some r)"
    using makeConcurrentHttpsReqs_total by blast
  have stuck: "\<forall>k. int k * c < int (length urls)" if c: "c \<le> 0"
  proof
    fix k :: nat
    from c have "int k * c \<le> 0" by (simp add: mult_nonneg_nonpos)
    moreover have "0 < int (length urls)" using assms by simp
    ultimately show "int k * c < int (length urls)" by linarith
  qed
  have never: "\<forall>acc tr'. ?call \<noteq> Some (Inr acc, tr')" if c: "c \<le> 0"
    using makeConcurrentHttpsReqs_nonpositive[OF c assms] by blast
  have forever: "?call = None \<longleftrightarrow>
      (\<forall>url \<in> set ?first. \<not> isl (snd (net (target_url fmt url) 10000)))" if c: "c \<le> 0"
    using makeConcurrentHttpsReqs_diverges[OF c assms] .
  have same: "map (\<lambda>u. axios_get net u 10000) (map (target_url fmt) ?first) =
              map (\<lambda>target. axios_get net (target_url fmt target) 10000) ?first"
    by (simp add: comp_def)
  have error: "?call = Some (Inl e, ?tr1) \<and>
      (\<exists>failing \<in> set ?first. snd (net (target_url fmt failing) 10000) = Inl e)"
    if c: "c \<le> 0" and r: "?all = Inl e" for e
  proof
    show "?call = Some (Inl e, ?tr1)"
      using makeConcurrentHttpsReqs_first_iteration[OF c assms, of net processData up fmt tr] r
      by simp
    show "\<exists>failing \<in> set ?first. snd (net (target_url fmt failing) 10000) = Inl e"
      using Promise_all_error[of net fmt ?first e] r unfolding same by blast
  qed
  have rejects: "\<exists>e. ?all = Inl e"
    if f: "\<exists>url \<in> set ?first. isl (snd (net (target_url fmt url) 10000))"
  proof (cases ?all)
    case (Inl e)
    then show ?thesis by blast
  next
    case (Inr vs)
    then have "Promise_all (map (\<lambda>u. axios_get net u 10000) (map (target_url fmt) ?first)) = Inr vs"
      unfolding same .
    from batch_fulfilled[OF this] f show ?thesis by blast
  qed
  have single: "?call = Some (Inl e, ?tr1)"
    if c: "c \<le> 0" and u: "url \<in> set ?first" "snd (net (target_url fmt url) 10000) = Inl e"
      and alone: "\<forall>other \<in> set ?first. isl (snd (net (target_url fmt other) 10000)) \<longrightarrow>
                    target_url fmt other = target_url fmt url"
    for url e
  proof -
    have "\<exists>url \<in> set ?first. isl (snd (net (target_url fmt url) 10000))"
      using u by force
    from rejects[OF this] obtain e' where r: "?all = Inl e'" by blast
    from error[OF c r] obtain failing where
      call: "?call = Some (Inl e', ?tr1)" and
      f: "failing \<in> set ?first" "snd (net (target_url fmt failing) 10000) = Inl e'"
      by blast
    from alone f have "target_url fmt failing = target_url fmt url" by simp
    with f(2) u(2) have "e' = e" by simp
    with call show ?thesis by simp
  qed
  have zero: "c = 0 \<longrightarrow> ?call = None"
  proof
    assume c: "c = 0"
    then have "?first = []" by (simp add: slice_def rel_index_def)
    with forever c show "?call = None" by simp
  qed
  from comes_back stuck never forever error rejects single zero
  show ?thesis by (intro conjI impI allI) blast+
qed

theorem loop_termination_witness:
  "makeConcurrentHttpsReqs echo_net [''a'', ''b'', ''c''] 2 pushData False None [] =
     Some (Inr [JStr ''a'', JStr ''b'', JStr ''c''],
           [GetAll [(''a'', 10000), (''b'', 10000)], GetAll [(''c'', 10000)]]) \<and>
   makeConcurrentHttpsReqs echo_net [''a'', ''b'', ''c''] 0 pushData False None [] = None \<and>
   slice [''a'', ''b'', ''c''] 0 (- 1) = [''a'', ''b''] \<and>
   makeConcurrentHttpsReqs echo_net [''a'', ''b'', ''c''] (- 1) pushData False None [] = None \<and>
   slice [''z'', ''y'', ''a''] 0 (- 1) = [''z'', ''y''] \<and>
   Promise_all (map (\<lambda>target. axios_get flaky_net (target_url None target) 10000)
                  (slice [''z'', ''y'', ''a''] 0 (- 1))) = Inl NetworkError \<and>
   makeConcurrentHttpsReqs flaky_net [''z'', ''y'', ''a''] (- 1) pushData False None [] =
     Some (Inl NetworkError, [GetAll [(''z'', 10000), (''y'', 10000)]]) \<and>
   makeConcurrentHttpsReqs flaky_net [''z'', ''a'', ''y''] (- 1) pushData False None [] =
     Some (Inl (NonSuccessStatus 404), [GetAll [(''z'', 10000), (''a'', 10000)]])"
proof -
  have ne: "[''a'', ''b'', ''c''] \<noteq> []" "[''z'', ''y'', ''a''] \<noteq> []" "[''z'', ''a'', ''y''] \<noteq> []"
    by simp_all
  have neg: "(- 1::int) \<le> 0" by simp
  have run: "makeConcurrentHttpsReqs echo_net [''a'', ''b'', ''c''] 2 pushData False None [] =
     Some (Inr [JStr ''a'', JStr ''b'', JStr ''c''],
           [GetAll [(''a'', 10000), (''b'', 10000)], GetAll [(''c'', 10000)]])"
    by (simp add: eval_defs)
  have first: "slice [''a'', ''b'', ''c''] 0 (- 1) = [''a'', ''b'']"
    by (simp add: slice_def rel_index_def)
  have ok: "\<forall>url \<in> set (slice [''a'', ''b'', ''c''] 0 (- 1)).
              \<not> isl (snd (echo_net (target_url None url) 10000))"
    by (simp add: echo_net_def)
  from loop_termination[OF ne(1), of 0 echo_net pushData False None "[]"]
  have zero: "makeConcurrentHttpsReqs echo_net [''a'', ''b'', ''c''] 0 pushData False None [] = None"
    by simp
  from loop_termination[OF ne(1), of "- 1" echo_net pushData False None "[]"] ok
  have minus: "makeConcurrentHttpsReqs echo_net [''a'', ''b'', ''c''] (- 1) pushData False None [] = None"
    by simp
  have first2: "slice [''z'', ''y'', ''a''] 0 (- 1) = [''z'', ''y'']"
    by (simp add: slice_def rel_index_def)
  have rejected: "Promise_all (map (\<lambda>target. axios_get flaky_net (target_url None target) 10000)
                  (slice [''z'', ''y'', ''a''] 0 (- 1))) = Inl NetworkError"
    by (simp add: first2 target_url_def Promise_all_def axios_get_def flaky_net_def)
  from loop_termination[OF ne(2), of "- 1" flaky_net pushData False None "[]"] neg rejected
  have "makeConcurrentHttpsReqs flaky_net [''z'', ''y'', ''a''] (- 1) pushData False None [] =
     Some (Inl NetworkError,
           [] @ [GetAll (map (\<lambda>target. (target_url None target, 10000))
                           (slice [''z'', ''y'', ''a''] 0 (- 1)))])"
    by blast
  then have both: "makeConcurrentHttpsReqs flaky_net [''z'', ''y'', ''a''] (- 1) pushData False None [] =
     Some (Inl NetworkError, [GetAll [(''z'', 10000), (''y'', 10000)]])"
    by (simp add: first2 target_url_def)
  have first3: "slice [''z'', ''a'', ''y''] 0 (- 1) = [''z'', ''a'']"
    by (simp add: slice_def rel_index_def)
  have z: "''z'' \<in> set (slice [''z'', ''a'', ''y''] 0 (- 1)) \<and>
           snd (flaky_net (target_url None ''z'') 10000) = Inl (NonSuccessStatus 404) \<and>
           (\<forall>other \<in> set (slice [''z'', ''a'', ''y''] 0 (- 1)).
              isl (snd (flaky_net (target_url None other) 10000)) \<longrightarrow>
              target_url None other = target_url None ''z'')"
    by (simp add: first3 target_url_def flaky_net_def)
  from loop_termination[OF ne(3), of "- 1" flaky_net pushData False None "[]"] neg z
  have "makeConcurrentHttpsReqs flaky_net [''z'', ''a'', ''y''] (- 1) pushData False None [] =
     Some (Inl (NonSuccessStatus 404),
           [] @ [GetAll (map (\<lambda>target. (target_url None target, 10000))
                           (slice [''z'', ''a'', ''y''] 0 (- 1)))])"
    by blast
  then have single: "makeConcurrentHttpsReqs flaky_net [''z'', ''a'', ''y''] (- 1) pushData False None [] =
     Some (Inl (NonSuccessStatus 404), [GetAll [(''z'', 10000), (''a'', 10000)]])"
    by (simp add: first3 target_url_def)
  from run zero first minus first2 rejected both single show ?thesis by simp
qed

text \<open>
  C10. A detail body whose \<open>language\<close>, \<open>children\<close> and \<open>txt\<close> satisfy the contract is
  accepted whatever else it holds, and a field of another name changes nothing in what the
  contract answers. A works list all of whose entries have a string \<open>slug\<close> is accepted, with
  those slugs, and a field other than \<open>slug\<close> in an entry changes nothing.
\<close>

theorem extra_fields_tolerated:
  "(get_prop u ''language'' = JStr textsLang \<and> get_prop u ''children'' = JArr [] \<and>
      get_prop u ''txt'' = JStr s \<longrightarrow>
      TextDetailCodec u = Right \<lparr>language = textsLang, children = [], txt = s\<rparr>) \<and>
   (k \<notin> {''language'', ''children'', ''txt''} \<longrightarrow>
      TextDetailCodec (JObj (before @ (k, x) # after)) = TextDetailCodec (JObj (before @ after))) \<and>
   ((\<forall>entry \<in> set entries. is_string (get_prop entry ''slug'')) \<longrightarrow>
      (\<exists>textObjs. TextsDataCodec (JArr entries) = Right textObjs \<and>
         map (\<lambda>textObj. JStr (slug textObj)) textObjs =
           map (\<lambda>entry. get_prop entry ''slug'') entries)) \<and>
   (k \<noteq> ''slug'' \<longrightarrow>
      TextsDataCodec (JArr (earlier @ JObj (before @ (k, x) # after) # later)) =
      TextsDataCodec (JArr (earlier @ JObj (before @ after) # later)))"
proof (intro conjI impI)
  assume "get_prop u ''language'' = JStr textsLang \<and> get_prop u ''children'' = JArr [] \<and>
      get_prop u ''txt'' = JStr s"
  then show "TextDetailCodec u = Right \<lparr>language = textsLang, children = [], txt = s\<rparr>"
    by (simp add: TextDetailCodec_Right)
next
  assume "k \<notin> {''language'', ''children'', ''txt''}"
  then have k: "k \<noteq> ''language''" "k \<noteq> ''children''" "k \<noteq> ''txt''" by simp_all
  note same = get_prop_extra[OF k(1), of before x after] get_prop_extra[OF k(2), of before x after]
    get_prop_extra[OF k(3), of before x after]
  show "TextDetailCodec (JObj (before @ (k, x) # after)) =
             TextDetailCodec (JObj (before @ after))"
    unfolding TextDetailCodec_def same by (simp only: is_record.simps)
next
  assume strings: "\<forall>entry \<in> set entries. is_string (get_prop entry ''slug'')"
  define f where "f = (\<lambda>entry. \<lparr>slug = (case get_prop entry ''slug'' of JStr s \<Rightarrow> s | _ \<Rightarrow> [])\<rparr>)"
  have "\<forall>entry \<in> set entries.
          (if is_record entry
           then (case t_string (get_prop entry ''slug'') of
                   Right s \<Rightarrow> Right \<lparr>slug = s\<rparr>
                 | Left \<Rightarrow> Left)
           else Left) = Right (f entry)"
  proof
    fix entry assume "entry \<in> set entries"
    with strings obtain s where s: "get_prop entry ''slug'' = JStr s"
      by (auto simp: is_string_iff)
    from slug_entry[OF s] s show "(if is_record entry
           then (case t_string (get_prop entry ''slug'') of
                   Right s \<Rightarrow> Right \<lparr>slug = s\<rparr>
                 | Left \<Rightarrow> Left)
           else Left) = Right (f entry)"
      by (simp add: f_def)
  qed
  then have decoded: "TextsDataCodec (JArr entries) = Right (map f entries)"
    by (simp add: TextsDataCodec_def t_array_def all_right_map_Right)
  have "map (\<lambda>textObj. JStr (slug textObj)) (map f entries) =
          map (\<lambda>entry. get_prop entry ''slug'') entries"
  proof (rule map_cong[OF refl, of _ "(\<lambda>textObj. JStr (slug textObj)) \<circ> f", simplified map_map[symmetric]])
    fix entry assume "entry \<in> set entries"
    with strings obtain s where "get_prop entry ''slug'' = JStr s"
      by (auto simp: is_string_iff)
    then show "((\<lambda>textObj. JStr (slug textObj)) \<circ> f) entry = get_prop entry ''slug''"
      by (simp add: f_def)
  qed
  with decoded show "\<exists>textObjs. TextsDataCodec (JArr entries) = Right textObjs \<and>
         map (\<lambda>textObj. JStr (slug textObj)) textObjs =
           map (\<lambda>entry. get_prop entry ''slug'') entries"
    by blast
next
  assume "k \<noteq> ''slug''"
  then show "TextsDataCodec (JArr (earlier @ JObj (before @ (k, x) # after) # later)) =
      TextsDataCodec (JArr (earlier @ JObj (before @ after) # later))"
    using get_prop_extra[of k "''slug''" before x after]
    by (simp add: TextsDataCodec_def t_array_def del: get_prop.simps)
qed

theorem extra_fields_tolerated_witness:
  "TextDetailCodec
     (JObj [(''title'', JStr ''A''), (''language'', JStr ''pol''), (''children'', JArr []),
            (''txt'', JStr ''X'')]) =
     Right \<lparr>language = ''pol'', children = [], txt = ''X''\<rparr> \<and>
   TextDetailCodec
     (JObj [(''title'', JStr ''A''), (''language'', JStr ''pol''), (''children'', JArr []),
            (''txt'', JStr ''X'')]) =
   TextDetailCodec
     (JObj [(''language'', JStr ''pol''), (''children'', JArr []), (''txt'', JStr ''X'')]) \<and>
   (\<exists>textObjs.
      TextsDataCodec
        (JArr [JObj [(''slug'', JStr ''a''), (''title'', JStr ''A'')], JObj [(''slug'', JStr ''b'')]]) =
        Right textObjs \<and>
      map (\<lambda>textObj. JStr (slug textObj)) textObjs = [JStr ''a'', JStr ''b'']) \<and>
   TextsDataCodec
     (JArr [JObj [(''title'', JStr ''A''), (''slug'', JStr ''a'')], JObj [(''slug'', JStr ''b'')]]) =
   TextsDataCodec (JArr [JObj [(''slug'', JStr ''a'')], JObj [(''slug'', JStr ''b'')]])"
proof -
  note detail = extra_fields_tolerated[of
      "JObj [(''title'', JStr ''A''), (''language'', JStr ''pol''), (''children'', JArr []),
             (''txt'', JStr ''X'')]"
      "''X''" "''title''" "[]" "JStr ''A''"
      "[(''language'', JStr ''pol''), (''children'', JArr []), (''txt'', JStr ''X'')]"
      "[JObj [(''slug'', JStr ''a''), (''title'', JStr ''A'')], JObj [(''slug'', JStr ''b'')]]"
      "[]" "[]"]
  note entry = extra_fields_tolerated[of JNull "[]" "''title''" "[]" "JStr ''A''"
      "[(''slug'', JStr ''a'')]" "[]" "[]" "[JObj [(''slug'', JStr ''b'')]]"]
  have fields: "get_prop (JObj [(''title'', JStr ''A''), (''language'', JStr ''pol''),
                   (''children'', JArr []), (''txt'', JStr ''X'')]) ''language'' = JStr textsLang \<and>
     get_prop (JObj [(''title'', JStr ''A''), (''language'', JStr ''pol''),
                   (''children'', JArr []), (''txt'', JStr ''X'')]) ''children'' = JArr [] \<and>
     get_prop (JObj [(''title'', JStr ''A''), (''language'', JStr ''pol''),
                   (''children'', JArr []), (''txt'', JStr ''X'')]) ''txt'' = JStr ''X''"
    by (simp add: textsLang_def)
  have extra: "''title'' \<notin> {''language'', ''children'', ''txt''}" "''title'' \<noteq> ''slug''"
    by simp_all
  have slugs: "\<forall>entry \<in> set [JObj [(''slug'', JStr ''a''), (''title'', JStr ''A'')],
                              JObj [(''slug'', JStr ''b'')]].
                 is_string (get_prop entry ''slug'')"
    by simp
  from detail fields have "TextDetailCodec
     (JObj [(''title'', JStr ''A''), (''language'', JStr ''pol''), (''children'', JArr []),
            (''txt'', JStr ''X'')]) =
     Right \<lparr>language = ''pol'', children = [], txt = ''X''\<rparr>"
    by (simp add: textsLang_def)
  moreover from detail extra(1) have "TextDetailCodec
     (JObj [(''title'', JStr ''A''), (''language'', JStr ''pol''), (''children'', JArr []),
            (''txt'', JStr ''X'')]) =
   TextDetailCodec
     (JObj [(''language'', JStr ''pol''), (''children'', JArr []), (''txt'', JStr ''X'')])"
    by simp
  moreover from detail slugs have "\<exists>textObjs.
      TextsDataCodec
        (JArr [JObj [(''slug'', JStr ''a''), (''title'', JStr ''A'')], JObj [(''slug'', JStr ''b'')]]) =
        Right textObjs \<and>
      map (\<lambda>textObj. JStr (slug textObj)) textObjs = [JStr ''a'', JStr ''b'']"
    by simp
  moreover from entry extra(2) have "TextsDataCodec
     (JArr [JObj [(''title'', JStr ''A''), (''slug'', JStr ''a'')], JObj [(''slug'', JStr ''b'')]]) =
   TextsDataCodec (JArr [JObj [(''slug'', JStr ''a'')], JObj [(''slug'', JStr ''b'')]])"
    by simp
  ultimately show ?thesis by blast
qed

end
